theory Spec2Isabelle
  imports Main "HOL-Library.Sublist"
begin

section \<open>A site mirroring tool: shallow embedding of \<open>main.go\<close>\<close>

text \<open>
  The program is one Go file. Its own functions (\<open>download\<close>, \<open>makeLocalPath\<close>,
  \<open>traverse\<close>, \<open>collectLinks\<close>, \<open>rewriteLinks\<close>, \<open>new\<close>, \<open>main\<close>) are embedded below
  under their own names. The functions it calls from Go's standard library
  (\<open>strings\<close>, \<open>path/filepath\<close> on a system whose separator is \<open>/\<close>) are modelled first;
  the URL resolver \<open>(*url.URL).Parse\<close>, the printer \<open>(*url.URL).String\<close>, the HTML parser
  and the HTTP client are parameters or inputs of the model.
\<close>

subsection \<open>\<open>strings\<close>\<close>

definition HasSuffix :: "string \<Rightarrow> string \<Rightarrow> bool" where
  "HasSuffix s suf = suffix suf s"

text \<open>\<open>strings.Contains(s, substr)\<close>: \<open>substr\<close> occurs in \<open>s\<close> as a contiguous block.\<close>

fun Contains :: "string \<Rightarrow> string \<Rightarrow> bool" where
  "Contains [] substr = (substr = [])"
| "Contains (c # cs) substr = (prefix substr (c # cs) \<or> Contains cs substr)"

text \<open>\<open>strings.Join(elems, "/")\<close>.\<close>

fun joinSep :: "string list \<Rightarrow> string" where
  "joinSep [] = []"
| "joinSep [e] = e"
| "joinSep (e # es) = e @ CHR ''/'' # joinSep es"

subsection \<open>\<open>path/filepath\<close>\<close>

text \<open>The elements of a path: the pieces between separators (an empty path has one, empty).\<close>

fun elems :: "string \<Rightarrow> string list" where
  "elems [] = [[]]"
| "elems (c # cs) =
     (if c = CHR ''/'' then [] # elems cs
      else (case elems cs of [] \<Rightarrow> [[c]] | e # es \<Rightarrow> (c # e) # es))"

text \<open>
  \<open>filepath.Clean\<close> reads the path element by element and writes to a buffer: an empty
  element and \<open>.\<close> are dropped; \<open>..\<close> removes the last element written when there is one
  that is not itself \<open>..\<close>, is dropped at the root of a rooted path, and is written otherwise;
  any other element is written. \<open>cleanStep\<close> is one such step on the list of elements
  written so far, last one first. An empty result is \<open>.\<close>.
\<close>

definition cleanStep :: "bool \<Rightarrow> string list \<Rightarrow> string \<Rightarrow> string list" where
  "cleanStep rooted st e =
     (if e = [] \<or> e = ''.'' then st
      else if e = ''..'' then
        (if st \<noteq> [] \<and> hd st \<noteq> ''..'' then tl st
         else if \<not> rooted then ''..'' # st
         else st)
      else e # st)"

definition isRooted :: "string \<Rightarrow> bool" where
  "isRooted p = (p \<noteq> [] \<and> hd p = CHR ''/'')"

definition render :: "bool \<Rightarrow> string list \<Rightarrow> string" where
  "render rooted st =
     (if rooted then CHR ''/'' # joinSep (rev st)
      else if st = [] then ''.''
      else joinSep (rev st))"

definition Clean :: "string \<Rightarrow> string" where
  "Clean p =
     (if p = [] then ''.''
      else render (isRooted p) (foldl (cleanStep (isRooted p)) [] (elems p)))"

text \<open>
  \<open>filepath.Join\<close>: leading empty elements are skipped; the rest is joined with the
  separator and cleaned; all empty gives the empty string.
\<close>

fun Join :: "string list \<Rightarrow> string" where
  "Join [] = []"
| "Join (e # es) = (if e = [] then Join es else Clean (joinSep (e # es)))"

text \<open>
  \<open>filepath.Ext\<close>: the suffix starting at the last dot of the last element,
  empty when that element has no dot.
\<close>

definition Ext :: "string \<Rightarrow> string" where
  "Ext p =
     (let rl = takeWhile (\<lambda>c. c \<noteq> CHR ''/'') (rev p)
      in if CHR ''.'' \<in> set rl
         then CHR ''.'' # rev (takeWhile (\<lambda>c. c \<noteq> CHR ''.'') rl)
         else [])"

text \<open>\<open>filepath.Dir\<close>: everything up to the last separator, cleaned.\<close>

definition Dir :: "string \<Rightarrow> string" where
  "Dir p = Clean (rev (dropWhile (\<lambda>c. c \<noteq> CHR ''/'') (rev p)))"

text \<open>
  \<open>filepath.Rel\<close>. Both paths are cleaned; equal paths give \<open>.\<close>, and a base \<open>.\<close> counts as
  empty. There is no relative path between a rooted and an unrooted path. The loop walks
  both paths element by element while the elements agree; \<open>relLoop\<close> returns what is left
  of the base and of the target where they first differ or one of them ends. When what
  is left of the base starts with the element \<open>..\<close>, there is no relative path either: it
  would name a directory that only the working directory tells. Otherwise the result
  goes up once for every element left of the base, then down what is left of the target;
  \<open>Rel\<close> calls \<open>Clean\<close> on the result.
\<close>

function relLoop :: "string \<Rightarrow> string \<Rightarrow> string \<times> string" where
  "relLoop base targ =
     (if base = [] \<or> targ = [] then (base, targ)
      else if takeWhile (\<lambda>c. c \<noteq> CHR ''/'') targ \<noteq> takeWhile (\<lambda>c. c \<noteq> CHR ''/'') base
        then (base, targ)
      else relLoop (drop 1 (dropWhile (\<lambda>c. c \<noteq> CHR ''/'') base))
                   (drop 1 (dropWhile (\<lambda>c. c \<noteq> CHR ''/'') targ)))"
  by pat_completeness auto
termination
proof (relation "measure (\<lambda>(base, targ). length base)")
  show "wf (measure (\<lambda>(base, targ). length base))" by simp
next
  fix base targ :: string
  assume a: "\<not> (base = [] \<or> targ = [])"
  have "length (dropWhile (\<lambda>c. c \<noteq> CHR ''/'') base) \<le> length base"
    by (rule length_dropWhile_le)
  moreover have "0 < length base" using a by simp
  ultimately have "length (dropWhile (\<lambda>c. c \<noteq> CHR ''/'') base) - 1 < length base"
    by arith
  then show "((drop 1 (dropWhile (\<lambda>c. c \<noteq> CHR ''/'') base),
               drop 1 (dropWhile (\<lambda>c. c \<noteq> CHR ''/'') targ)), (base, targ))
             \<in> measure (\<lambda>(base, targ). length base)"
    by simp
qed

declare relLoop.simps [simp del]

definition Rel :: "string \<Rightarrow> string \<Rightarrow> string option" where
  "Rel basepath targpath =
     (let base0 = Clean basepath; targ = Clean targpath in
      if targ = base0 then Some ''.''
      else
        let base = (if base0 = ''.'' then [] else base0) in
        if isRooted base \<noteq> isRooted targ then None
        else
          (case relLoop base targ of (brest, trest) \<Rightarrow>
             if takeWhile (\<lambda>c. c \<noteq> CHR ''/'') brest = ''..'' then None
             else if brest \<noteq> [] then
               Some (Clean (''..'' @ concat (replicate (count_list brest (CHR ''/'')) ''/..'')
                            @ (if trest \<noteq> [] then CHR ''/'' # trest else [])))
             else Some (Clean trest)))"

subsection \<open>The data of the program\<close>

text \<open>The fields of \<open>url.URL\<close> the program reads or writes.\<close>

record url =
  Scheme :: string
  Host :: string
  Path :: string
  RawQuery :: string
  Fragment :: string

text \<open>
  The fields of \<open>downloader\<close> that are fixed before the crawl starts. The visited map and
  the semaphore channel, which the tasks share and change, are in the run state below.
\<close>

record downloader =
  maxDepth :: int
  concurrencyLimit :: int
  host :: string
  rootDir :: string

subsection \<open>\<open>makeLocalPath\<close>\<close>

definition makeLocalPath :: "downloader \<Rightarrow> url \<Rightarrow> string" where
  "makeLocalPath d u =
     (let path = Join [rootDir d, Clean (Path u)] in
      if Path u = [] \<or> HasSuffix (Path u) ''/'' \<or> Ext path = []
      then Join [path, ''index.html'']
      else path)"

subsection \<open>Documents\<close>

text \<open>
  \<open>html.Node\<close>: the node type, the tag name (\<open>Data\<close>), the attributes in order and the
  children in order (the chain \<open>FirstChild\<close>, \<open>NextSibling\<close> that \<open>traverse\<close> follows).
\<close>

datatype NodeType =
  ErrorNode | TextNode | DocumentNode | ElementNode | CommentNode | DoctypeNode | RawNode

record Attribute =
  Key :: string
  Val :: string

datatype Node = Node (Type: NodeType) (Data: string) (Attr: "Attribute list") (Children: "Node list")

text \<open>
  The library functions the program calls whose results it only passes on:
  \<open>url.Parse\<close>, \<open>(*url.URL).Parse\<close> (resolution of a reference against a base; \<open>None\<close> is
  its error), \<open>(*url.URL).String\<close> and \<open>html.Parse\<close>. They are parameters of the model.
\<close>

record lib =
  url_Parse :: "string \<Rightarrow> url option"
  URL_Parse :: "url \<Rightarrow> string \<Rightarrow> url option"
  URL_String :: "url \<Rightarrow> string"
  html_Parse :: "string \<Rightarrow> Node option"

subsection \<open>\<open>traverse\<close>\<close>

text \<open>
  \<open>traverse\<close> calls the visitor on the node, then on each child in order. The visitor of
  \<open>collectLinks\<close> appends to two lists it closes over: here it takes them and returns them.
\<close>

fun traverse :: "Node \<Rightarrow> (Node \<Rightarrow> 's \<Rightarrow> 's) \<Rightarrow> 's \<Rightarrow> 's" where
  "traverse (Node t d as cs) fn s = fold (\<lambda>c. traverse c fn) cs (fn (Node t d as cs) s)"

text \<open>
  The visitor of \<open>rewriteLinks\<close> assigns to \<open>n.Attr[i].Val\<close> and to nothing else, so it is
  given as the function from a node to its attributes after the visit, and the traversal
  returns the document after all visits.
\<close>

fun traverseAttr :: "Node \<Rightarrow> (Node \<Rightarrow> Attribute list) \<Rightarrow> Node" where
  "traverseAttr (Node t d as cs) fn =
     Node t d (fn (Node t d as cs)) (map (\<lambda>c. traverseAttr c fn) cs)"

subsection \<open>\<open>collectLinks\<close>\<close>

text \<open>The \<open>switch n.Data\<close> of \<open>collectLinks\<close>: the attribute to read and \<open>isPageLink\<close>.\<close>

definition collectTag :: "string \<Rightarrow> (string \<times> bool) option" where
  "collectTag tag =
     (if tag = ''a'' then Some (''href'', True)
      else if tag = ''link'' then Some (''href'', False)
      else if tag = ''script'' \<or> tag = ''img'' then Some (''src'', False)
      else None)"

text \<open>
  The loop over \<open>n.Attr\<close>: the URL it has when it reaches \<open>break\<close>, \<open>None\<close> when it runs
  to the end without.
\<close>

fun collectAttrs :: "lib \<Rightarrow> downloader \<Rightarrow> url \<Rightarrow> string \<Rightarrow> Attribute list \<Rightarrow> url option" where
  "collectAttrs L d base attrKey [] = None"
| "collectAttrs L d base attrKey (a # as) =
     (if Key a \<noteq> attrKey then collectAttrs L d base attrKey as
      else
        (case URL_Parse L base (Val a) of
           None \<Rightarrow> collectAttrs L d base attrKey as
         | Some absURL0 \<Rightarrow>
             let absURL = (if Scheme absURL0 = [] then absURL0\<lparr>Scheme := Scheme base\<rparr> else absURL0) in
             if Host absURL \<noteq> host d \<or> (Scheme absURL \<noteq> ''http'' \<and> Scheme absURL \<noteq> ''https'')
             then collectAttrs L d base attrKey as
             else Some (absURL\<lparr>Fragment := []\<rparr>)))"

definition collectVisit ::
  "lib \<Rightarrow> downloader \<Rightarrow> url \<Rightarrow> Node \<Rightarrow> url list \<times> url list \<Rightarrow> url list \<times> url list" where
  "collectVisit L d base n acc =
     (if Type n \<noteq> ElementNode then acc
      else
        (case collectTag (Data n) of
           None \<Rightarrow> acc
         | Some (attrKey, isPageLink) \<Rightarrow>
             (case collectAttrs L d base attrKey (Attr n) of
                None \<Rightarrow> acc
              | Some absURL \<Rightarrow>
                  if isPageLink then (fst acc, snd acc @ [absURL])
                  else (fst acc @ [absURL], snd acc))))"

text \<open>The result is the pair (resources, pages).\<close>

definition collectLinks :: "lib \<Rightarrow> downloader \<Rightarrow> Node \<Rightarrow> url \<Rightarrow> url list \<times> url list" where
  "collectLinks L d doc base = traverse doc (collectVisit L d base) ([], [])"

subsection \<open>\<open>rewriteLinks\<close>\<close>

definition rewriteTag :: "string \<Rightarrow> string option" where
  "rewriteTag tag =
     (if tag = ''a'' \<or> tag = ''link'' then Some ''href''
      else if tag = ''script'' \<or> tag = ''img'' then Some ''src''
      else None)"

text \<open>The loop over \<open>n.Attr\<close>: the attributes when it ends.\<close>

fun rewriteAttrs ::
  "lib \<Rightarrow> downloader \<Rightarrow> url \<Rightarrow> string \<Rightarrow> string \<Rightarrow> Attribute list \<Rightarrow> Attribute list" where
  "rewriteAttrs L d base currentLocalPath attrKey [] = []"
| "rewriteAttrs L d base currentLocalPath attrKey (a # as) =
     (if Key a \<noteq> attrKey then a # rewriteAttrs L d base currentLocalPath attrKey as
      else
        (case URL_Parse L base (Val a) of
           None \<Rightarrow> a # rewriteAttrs L d base currentLocalPath attrKey as
         | Some absURL \<Rightarrow>
             if Host absURL \<noteq> host d
             then a # rewriteAttrs L d base currentLocalPath attrKey as
             else
               (case Rel (Dir currentLocalPath) (makeLocalPath d absURL) of
                  None \<Rightarrow> a # rewriteAttrs L d base currentLocalPath attrKey as
                | Some relPath \<Rightarrow> a\<lparr>Val := relPath\<rparr> # as)))"

definition rewriteVisit :: "lib \<Rightarrow> downloader \<Rightarrow> url \<Rightarrow> string \<Rightarrow> Node \<Rightarrow> Attribute list" where
  "rewriteVisit L d base currentLocalPath n =
     (if Type n \<noteq> ElementNode then Attr n
      else
        (case rewriteTag (Data n) of
           None \<Rightarrow> Attr n
         | Some attrKey \<Rightarrow> rewriteAttrs L d base currentLocalPath attrKey (Attr n)))"

definition rewriteLinks :: "lib \<Rightarrow> downloader \<Rightarrow> Node \<Rightarrow> url \<Rightarrow> string \<Rightarrow> Node" where
  "rewriteLinks L d doc base currentLocalPath =
     traverseAttr doc (rewriteVisit L d base currentLocalPath)"

subsection \<open>\<open>download\<close>: one task after its request\<close>

text \<open>The fields of \<open>http.Response\<close> the program reads.\<close>

record Response =
  Status :: string
  StatusCode :: int
  ContentType :: string
  Body :: string

text \<open>
  How the body of a task ends once \<open>d.client.Get\<close> has returned. A panic is not recovered
  anywhere in the program, so it ends the process.
\<close>

datatype outcome =
    Panic
  | TransportError
  | StatusError
  | MkdirError
  | SavedNonHTML string string
  | ParseError
  | SavedHTML "url list" "url list" string Node

text \<open>
  Lines 119 to 182. \<open>resp\<close> is the response \<open>Get\<close> returned (\<open>None\<close> for \<open>nil\<close>), \<open>err\<close> says
  whether its error was not \<open>nil\<close>, and \<open>mkdirFails\<close> whether \<open>os.MkdirAll\<close> failed.
  \<open>resp.Status\<close> is read on line 121, before \<open>err\<close> is looked at on line 122.
  A failure to write the file is printed and changes nothing else.
\<close>

definition afterGet :: "lib \<Rightarrow> downloader \<Rightarrow> url \<Rightarrow> Response option \<Rightarrow> bool \<Rightarrow> bool \<Rightarrow> outcome" where
  "afterGet L d u resp err mkdirFails =
     (case resp of
        None \<Rightarrow> Panic
      | Some r \<Rightarrow>
          if err then TransportError
          else if StatusCode r \<noteq> 200 then StatusError
          else
            let localPath = makeLocalPath d u in
            if mkdirFails then MkdirError
            else if \<not> Contains (ContentType r) ''text/html'' then SavedNonHTML localPath (Body r)
            else
              (case html_Parse L (Body r) of
                 None \<Rightarrow> ParseError
               | Some doc \<Rightarrow>
                   let (resources, pages) = collectLinks L d doc u in
                   SavedHTML resources pages localPath (rewriteLinks L d doc u localPath)))"

subsection \<open>\<open>download\<close>: the tasks of a run\<close>

text \<open>
  Every call of \<open>download\<close> starts a goroutine. A task is the URL and depth it was called
  with and the place it has reached:
  \<^item> \<open>Pending\<close>: started, before the depth test of line 100 and \<open>d.visitedMu.Lock()\<close>;
  \<^item> \<open>Locked\<close>: holding \<open>d.visitedMu\<close>, before the read of \<open>d.visited[urlStr]\<close> (line 107);
  \<^item> \<open>Unvisited\<close>: holding \<open>d.visitedMu\<close>, the read gave \<open>false\<close>, before the write of
    line 111;
  \<^item> \<open>Claimed\<close>: past the write and \<open>Unlock()\<close> (line 112), before the send on \<open>d.sem\<close>;
  \<^item> \<open>Holding\<close>: past the send on \<open>d.sem\<close> (line 115), before \<open>Get\<close>;
  \<^item> \<open>InFlight\<close>: inside \<open>Get\<close> (line 119);
  \<^item> \<open>Spawning pages\<close>: the resources have been passed to \<open>download\<close> (line 167), the
    pages (line 181) not yet;
  \<^item> \<open>Done\<close>: returned, its deferred receive from \<open>d.sem\<close> done if it had sent.
\<close>

datatype pc = Pending | Locked | Unvisited | Claimed | Holding | InFlight | Spawning "url list" | Done

record task =
  turl :: url
  tdepth :: int
  tpc :: pc

text \<open>
  What the tasks share: the map \<open>visited\<close> (a missing key reads \<open>false\<close>), whether the
  mutex \<open>visitedMu\<close> is held, the number of values in the channel \<open>d.sem\<close>, the tasks started
  so far, the requests sent so far (the string passed to \<open>Get\<close> and the depth of the task),
  and whether the process has ended in a panic.
\<close>

record run =
  visited :: "string \<Rightarrow> bool"
  locked :: bool
  sem :: nat
  tasks :: "task list"
  gets :: "(string \<times> int) list"
  crashed :: bool

text \<open>\<open>d.download(u, depth)\<close> as seen by its caller: one more task.\<close>

definition download :: "url \<Rightarrow> int \<Rightarrow> run \<Rightarrow> run" where
  "download u depth s = s\<lparr>tasks := tasks s @ [\<lparr>turl = u, tdepth = depth, tpc = Pending\<rparr>]\<rparr>"

definition setpc :: "nat \<Rightarrow> pc \<Rightarrow> run \<Rightarrow> run" where
  "setpc i p s = s\<lparr>tasks := (tasks s)[i := (tasks s ! i)\<lparr>tpc := p\<rparr>]\<rparr>"

text \<open>The deferred \<open><-d.sem\<close>.\<close>

definition release :: "run \<Rightarrow> run" where
  "release s = s\<lparr>sem := sem s - 1\<rparr>"

text \<open>
  The steps a scheduler can let a task take, in any interleaving. \<open>Lock()\<close> goes through
  when the mutex is free and waits otherwise; the read and the write of \<open>visited\<close> are two
  steps. A send on the channel of capacity \<open>concurrencyLimit\<close> goes through when the
  channel holds fewer values than that, and waits otherwise. \<open>Respond\<close> carries what \<open>Get\<close>
  and \<open>os.MkdirAll\<close> returned. A step that cannot be taken is \<open>None\<close>.
\<close>

datatype event =
    Start nat
  | Test nat
  | Mark nat
  | Acquire nat
  | IssueGet nat
  | Respond nat "Response option" bool bool
  | Finish nat

definition at :: "run \<Rightarrow> nat \<Rightarrow> pc \<Rightarrow> bool" where
  "at s i p = (\<not> crashed s \<and> i < length (tasks s) \<and> tpc (tasks s ! i) = p)"

fun step :: "lib \<Rightarrow> downloader \<Rightarrow> event \<Rightarrow> run \<Rightarrow> run option" where
  "step L d (Start i) s =
     (if \<not> at s i Pending then None
      else
        if tdepth (tasks s ! i) > maxDepth d then Some (setpc i Done s)
        else if locked s then None
        else Some (setpc i Locked (s\<lparr>locked := True\<rparr>)))"
| "step L d (Test i) s =
     (if \<not> at s i Locked then None
      else
        let urlStr = URL_String L (turl (tasks s ! i)) in
        if visited s urlStr then Some (setpc i Done (s\<lparr>locked := False\<rparr>))
        else Some (setpc i Unvisited s))"
| "step L d (Mark i) s =
     (if \<not> at s i Unvisited then None
      else
        let urlStr = URL_String L (turl (tasks s ! i)) in
        Some (setpc i Claimed (s\<lparr>visited := (visited s)(urlStr := True), locked := False\<rparr>)))"
| "step L d (Acquire i) s =
     (if \<not> at s i Claimed then None
      else if int (sem s) < concurrencyLimit d then Some (setpc i Holding (s\<lparr>sem := sem s + 1\<rparr>))
      else None)"
| "step L d (IssueGet i) s =
     (if \<not> at s i Holding then None
      else
        let t = tasks s ! i in
        Some (setpc i InFlight (s\<lparr>gets := gets s @ [(URL_String L (turl t), tdepth t)]\<rparr>)))"
| "step L d (Respond i resp err mkdirFails) s =
     (if \<not> at s i InFlight then None
      else
        let t = tasks s ! i in
        (case afterGet L d (turl t) resp err mkdirFails of
           Panic \<Rightarrow> Some (s\<lparr>crashed := True\<rparr>)
         | SavedHTML resources pages localPath doc \<Rightarrow>
             Some (setpc i (Spawning pages) (fold (\<lambda>res. download res (tdepth t)) resources s))
         | _ \<Rightarrow> Some (setpc i Done (release s))))"
| "step L d (Finish i) s =
     (if \<not> crashed s \<and> i < length (tasks s) then
        (case tpc (tasks s ! i) of
           Spawning pages \<Rightarrow>
             Some (setpc i Done
                     (release (fold (\<lambda>page. download page (tdepth (tasks s ! i) + 1)) pages s)))
         | _ \<Rightarrow> None)
      else None)"

fun execute :: "lib \<Rightarrow> downloader \<Rightarrow> event list \<Rightarrow> run \<Rightarrow> run option" where
  "execute L d [] s = Some s"
| "execute L d (e # es) s = (case step L d e s of None \<Rightarrow> None | Some s' \<Rightarrow> execute L d es s')"

subsection \<open>\<open>new\<close> and \<open>main\<close>\<close>

text \<open>
  \<open>new\<close>: \<open>make(chan struct{}, limit)\<close> panics on a negative \<open>limit\<close>. The fields it does
  not set are zero.
\<close>

definition new :: "int \<Rightarrow> downloader option" where
  "new limit =
     (if limit < 0 then None
      else Some \<lparr>maxDepth = 0, concurrencyLimit = limit, host = [], rootDir = []\<rparr>)"

definition start :: "url \<Rightarrow> run" where
  "start base =
     download base 0 \<lparr>visited = (\<lambda>k. False), locked = False, sem = 0, tasks = [], gets = [], crashed = False\<rparr>"

text \<open>
  \<open>main\<close> up to its call of \<open>d.download(base, 0)\<close>: the downloader and the run it starts,
  \<open>None\<close> when it ends before (\<open>log.Fatal\<close>, or the panic of \<open>new\<close>).
\<close>

definition main :: "lib \<Rightarrow> string \<Rightarrow> int \<Rightarrow> int \<Rightarrow> bool \<Rightarrow> (downloader \<times> url \<times> run) option" where
  "main L startURL maxDepth0 conLimit mkdirFails =
     (if startURL = [] then None
      else
        (case new conLimit of
           None \<Rightarrow> None
         | Some d0 \<Rightarrow>
             (case url_Parse L startURL of
                None \<Rightarrow> None
              | Some base0 \<Rightarrow>
                  let base = (if Scheme base0 = [] then base0\<lparr>Scheme := ''https''\<rparr> else base0);
                      d = d0\<lparr>maxDepth := maxDepth0, host := Host base, rootDir := Host base\<rparr>
                  in if mkdirFails then None else Some (d, base, start base))))"

section \<open>Notions used in the statements\<close>

subsection \<open>Paths\<close>

text \<open>
  A name is a path element that \<open>Clean\<close> keeps as it is. \<open>stackOf\<close> is the buffer of \<open>Clean\<close>
  at the end, last element first, and \<open>nf\<close> what holds of it: no separator, no empty
  element, no \<open>.\<close>, and \<open>..\<close> only on top of \<open>..\<close> in a path that is not rooted.
\<close>

definition name :: "string \<Rightarrow> bool" where
  "name e = (e \<noteq> [] \<and> e \<noteq> ''.'' \<and> e \<noteq> ''..'' \<and> CHR ''/'' \<notin> set e)"

definition stackOf :: "string \<Rightarrow> string list" where
  "stackOf p = foldl (cleanStep (isRooted p)) [] (elems p)"

fun nf :: "bool \<Rightarrow> string list \<Rightarrow> bool" where
  "nf r [] = True"
| "nf r (e # st) =
     (e \<noteq> [] \<and> e \<noteq> ''.'' \<and> CHR ''/'' \<notin> set e \<and> nf r st
      \<and> (e = ''..'' \<longrightarrow> \<not> r \<and> (\<forall>x \<in> set st. x = ''..'')))"

text \<open>
  The loop of \<open>Rel\<close> on lists of elements: what is left of the base and of the target
  where they first differ or one of them ends.
\<close>

fun relElems :: "string list \<Rightarrow> string list \<Rightarrow> string list \<times> string list" where
  "relElems [] ts = ([], ts)"
| "relElems (b # bs) [] = (b # bs, [])"
| "relElems (b # bs) (t # ts) = (if t \<noteq> b then (b # bs, t # ts) else relElems bs ts)"

text \<open>The test of line 190: whether \<open>makeLocalPath\<close> appends \<open>index.html\<close>.\<close>

definition appendsIndex :: "downloader \<Rightarrow> url \<Rightarrow> bool" where
  "appendsIndex d u =
     (Path u = [] \<or> HasSuffix (Path u) ''/'' \<or> Ext (Join [rootDir d, Clean (Path u)]) = [])"

subsection \<open>Documents\<close>

text \<open>The nodes of a document in the order \<open>traverse\<close> visits them.\<close>

fun preorder :: "Node \<Rightarrow> Node list" where
  "preorder (Node t d as cs) = Node t d as cs # concat (map preorder cs)"

text \<open>
  What one attribute value yields in \<open>collectLinks\<close>: resolved against the base, given the
  base's scheme when it has none, dropped when the host or the scheme is not wanted,
  returned without its fragment.
\<close>

definition candidate :: "lib \<Rightarrow> downloader \<Rightarrow> url \<Rightarrow> Attribute \<Rightarrow> url option" where
  "candidate L d base a =
     (case URL_Parse L base (Val a) of
        None \<Rightarrow> None
      | Some absURL0 \<Rightarrow>
          let absURL = (if Scheme absURL0 = [] then absURL0\<lparr>Scheme := Scheme base\<rparr> else absURL0) in
          if Host absURL \<noteq> host d \<or> (Scheme absURL \<noteq> ''http'' \<and> Scheme absURL \<noteq> ''https'')
          then None
          else Some (absURL\<lparr>Fragment := []\<rparr>))"

text \<open>
  The link of a node: for an element \<open>a\<close>, \<open>link\<close>, \<open>script\<close> or \<open>img\<close>, what the first
  attribute with the tag's key that yields a URL yields, with \<open>isPageLink\<close>.
\<close>

definition nodeLink :: "lib \<Rightarrow> downloader \<Rightarrow> url \<Rightarrow> Node \<Rightarrow> (bool \<times> url) option" where
  "nodeLink L d base n =
     (if Type n \<noteq> ElementNode then None
      else
        (case collectTag (Data n) of
           None \<Rightarrow> None
         | Some (attrKey, isPageLink) \<Rightarrow>
             (case find (\<lambda>a. Key a = attrKey \<and> candidate L d base a \<noteq> None) (Attr n) of
                None \<Rightarrow> None
              | Some a \<Rightarrow> map_option (Pair isPageLink) (candidate L d base a))))"

definition linksOf :: "lib \<Rightarrow> downloader \<Rightarrow> url \<Rightarrow> Node list \<Rightarrow> (bool \<times> url) list" where
  "linksOf L d base ns = List.map_filter (nodeLink L d base) ns"

definition addLinks :: "(bool \<times> url) list \<Rightarrow> url list \<times> url list \<Rightarrow> url list \<times> url list" where
  "addLinks ls acc =
     (fst acc @ map snd (filter (\<lambda>l. \<not> fst l) ls), snd acc @ map snd (filter fst ls))"

text \<open>The test of line 305, negated: the value resolves, and to the host of the mirror.\<close>

definition sameHost :: "lib \<Rightarrow> downloader \<Rightarrow> url \<Rightarrow> string \<Rightarrow> bool" where
  "sameHost L d base v =
     (case URL_Parse L base v of None \<Rightarrow> False | Some absURL \<Rightarrow> Host absURL = host d)"

text \<open>
  What the loop of \<open>rewriteLinks\<close> writes to an attribute when it reaches it, \<open>None\<close> when
  it goes on to the next one.
\<close>

definition relTo :: "lib \<Rightarrow> downloader \<Rightarrow> url \<Rightarrow> string \<Rightarrow> string \<Rightarrow> Attribute \<Rightarrow> string option" where
  "relTo L d base currentLocalPath attrKey a =
     (if Key a \<noteq> attrKey then None
      else
        (case URL_Parse L base (Val a) of
           None \<Rightarrow> None
         | Some absURL \<Rightarrow>
             if Host absURL \<noteq> host d then None
             else Rel (Dir currentLocalPath) (makeLocalPath d absURL)))"

subsection \<open>Runs\<close>

definition pendingTask :: "int \<Rightarrow> url \<Rightarrow> task" where
  "pendingTask dep u = \<lparr>turl = u, tdepth = dep, tpc = Pending\<rparr>"

definition keyOf :: "lib \<Rightarrow> task \<Rightarrow> string" where
  "keyOf L t = URL_String L (turl t)"

text \<open>Between \<open>Lock()\<close> and \<open>Unlock()\<close>.\<close>

definition inCS :: "pc \<Rightarrow> bool" where
  "inCS p = (p = Locked \<or> p = Unvisited)"

text \<open>Has marked its URL and not yet sent the request.\<close>

definition claimedPc :: "pc \<Rightarrow> bool" where
  "claimedPc p = (p = Claimed \<or> p = Holding)"

text \<open>Between the send on \<open>d.sem\<close> and the deferred receive.\<close>

definition holdsSlot :: "pc \<Rightarrow> bool" where
  "holdsSlot p = (case p of Holding \<Rightarrow> True | InFlight \<Rightarrow> True | Spawning pages \<Rightarrow> True | _ \<Rightarrow> False)"

definition cnt :: "('a \<Rightarrow> bool) \<Rightarrow> 'a list \<Rightarrow> nat" where
  "cnt P xs = length (filter P xs)"

definition cntx :: "('a \<Rightarrow> bool) \<Rightarrow> nat \<Rightarrow> 'a list \<Rightarrow> nat" where
  "cntx P i xs = cnt P (take i xs) + cnt P (drop (Suc i) xs)"

text \<open>The invariants of a run.\<close>

definition invCS :: "run \<Rightarrow> bool" where
  "invCS s = (cnt (\<lambda>t. inCS (tpc t)) (tasks s) = (if locked s then 1 else 0))"

definition invKey :: "lib \<Rightarrow> run \<Rightarrow> string \<Rightarrow> bool" where
  "invKey L s k =
     (cnt (\<lambda>t. claimedPc (tpc t) \<and> keyOf L t = k) (tasks s) + count_list (map fst (gets s)) k
        = (if visited s k then 1 else 0))"

definition invUnv :: "lib \<Rightarrow> run \<Rightarrow> bool" where
  "invUnv L s =
     (\<forall>j < length (tasks s). tpc (tasks s ! j) = Unvisited \<longrightarrow> \<not> visited s (keyOf L (tasks s ! j)))"

definition invSem :: "downloader \<Rightarrow> run \<Rightarrow> bool" where
  "invSem d s = (cnt (\<lambda>t. holdsSlot (tpc t)) (tasks s) = sem s \<and> int (sem s) \<le> concurrencyLimit d)"

definition invDepth :: "downloader \<Rightarrow> run \<Rightarrow> bool" where
  "invDepth d s =
     ((\<forall>j < length (tasks s). tpc (tasks s ! j) \<noteq> Pending \<and> tpc (tasks s ! j) \<noteq> Done \<longrightarrow>
          tdepth (tasks s ! j) \<le> maxDepth d)
      \<and> (\<forall>g \<in> set (gets s). snd g \<le> maxDepth d))"

definition invRoot :: "lib \<Rightarrow> url \<Rightarrow> run \<Rightarrow> bool" where
  "invRoot L base s =
     (tasks s \<noteq> [] \<and> turl (tasks s ! 0) = base \<and> tdepth (tasks s ! 0) = 0
      \<and> (tpc (tasks s ! 0) = Pending \<or> tpc (tasks s ! 0) = Locked \<or> tpc (tasks s ! 0) = Unvisited
          \<or> visited s (URL_String L base)))"

definition invFirst :: "url \<Rightarrow> run \<Rightarrow> bool" where
  "invFirst base s = (tasks s \<noteq> [] \<and> turl (tasks s ! 0) = base)"

definition invGets :: "lib \<Rightarrow> run \<Rightarrow> bool" where
  "invGets L s = (\<forall>g \<in> set (gets s). \<exists>j < length (tasks s). fst g = keyOf L (tasks s ! j))"

definition invFrag :: "run \<Rightarrow> bool" where
  "invFrag s =
     ((\<forall>j < length (tasks s). 0 < j \<longrightarrow> Fragment (turl (tasks s ! j)) = [])
      \<and> (\<forall>j < length (tasks s). \<forall>pages. tpc (tasks s ! j) = Spawning pages \<longrightarrow>
            (\<forall>u \<in> set pages. Fragment u = [])))"

subsection \<open>An example site\<close>

text \<open>
  The site of the examples: \<open>https://example.com/\<close> serves one page that links to
  \<open>/about#team\<close>, shows \<open>/logo.png\<close>, links to another host and to its own top.
  \<open>exampleResolve\<close> is what \<open>(*url.URL).Parse\<close> returns on the references the examples use:
  the empty reference, a fragment alone, a path from the root with or without a fragment
  (no query, no dot segments), and one URL of another host. \<open>exampleString\<close> is what
  \<open>(*url.URL).String\<close> returns on URLs that need no escaping.
\<close>

definition exampleBase :: url where
  "exampleBase = \<lparr>Scheme = ''https'', Host = ''example.com'', Path = ''/'', RawQuery = [], Fragment = []\<rparr>"

definition exampleResolve :: "url \<Rightarrow> string \<Rightarrow> url option" where
  "exampleResolve base ref =
     (if ref = [] then Some base
      else if hd ref = CHR ''#'' then Some (base\<lparr>Fragment := tl ref\<rparr>)
      else if hd ref = CHR ''/'' then
        Some (base\<lparr>Path := takeWhile (\<lambda>c. c \<noteq> CHR ''#'') ref, RawQuery := [],
                   Fragment := drop 1 (dropWhile (\<lambda>c. c \<noteq> CHR ''#'') ref)\<rparr>)
      else if ref = ''https://other.org/x'' then
        Some \<lparr>Scheme = ''https'', Host = ''other.org'', Path = ''/x'', RawQuery = [], Fragment = []\<rparr>
      else None)"

definition exampleString :: "url \<Rightarrow> string" where
  "exampleString u =
     Scheme u @ ''://'' @ Host u @ Path u
       @ (if RawQuery u = [] then [] else CHR ''?'' # RawQuery u)
       @ (if Fragment u = [] then [] else CHR ''#'' # Fragment u)"

definition exampleDoc :: Node where
  "exampleDoc =
     Node DocumentNode [] []
       [Node ElementNode ''html'' []
          [Node ElementNode ''body'' []
             [Node ElementNode ''a'' [\<lparr>Key = ''href'', Val = ''/about#team''\<rparr>]
                [Node TextNode ''About'' [] []],
              Node ElementNode ''img''
                [\<lparr>Key = ''alt'', Val = ''logo''\<rparr>, \<lparr>Key = ''src'', Val = ''/logo.png''\<rparr>] [],
              Node ElementNode ''a'' [\<lparr>Key = ''href'', Val = ''https://other.org/x''\<rparr>] [],
              Node ElementNode ''a'' [\<lparr>Key = ''href'', Val = ''#top''\<rparr>] []]]]"

text \<open>An anchor with two \<open>href\<close> attributes, without and with fragments.\<close>

definition twoHrefs :: Node where
  "twoHrefs =
     Node ElementNode ''a'' [\<lparr>Key = ''href'', Val = ''/x''\<rparr>, \<lparr>Key = ''href'', Val = ''/y''\<rparr>] []"

definition twoAnchors :: Node where
  "twoAnchors =
     Node ElementNode ''a'' [\<lparr>Key = ''href'', Val = ''/x#a''\<rparr>, \<lparr>Key = ''href'', Val = ''/y#b''\<rparr>] []"

definition exampleLib :: lib where
  "exampleLib =
     \<lparr>url_Parse = (\<lambda>s. if s = ''https://example.com/'' then Some exampleBase else None),
      URL_Parse = exampleResolve,
      URL_String = exampleString,
      html_Parse = (\<lambda>b. if b = ''<index>'' then Some exampleDoc else None)\<rparr>"

text \<open>The downloader \<open>main\<close> builds for \<open>-u https://example.com/ -d 1 -n 2\<close>, and for \<open>-d 0\<close>.\<close>

definition exampleD :: downloader where
  "exampleD = \<lparr>maxDepth = 1, concurrencyLimit = 2, host = ''example.com'', rootDir = ''example.com''\<rparr>"

definition exampleD0 :: downloader where
  "exampleD0 = \<lparr>maxDepth = 0, concurrencyLimit = 2, host = ''example.com'', rootDir = ''example.com''\<rparr>"

definition indexResp :: Response where
  "indexResp =
     \<lparr>Status = ''200 OK'', StatusCode = 200, ContentType = ''text/html; charset=utf-8'', Body = ''<index>''\<rparr>"

definition pngResp :: Response where
  "pngResp = \<lparr>Status = ''200 OK'', StatusCode = 200, ContentType = ''image/png'', Body = ''PNG''\<rparr>"

definition notFoundResp :: Response where
  "notFoundResp =
     \<lparr>Status = ''404 Not Found'', StatusCode = 404, ContentType = ''text/plain'', Body = []\<rparr>"

text \<open>
  The first task up to the return of its request, then to its end; then the three tasks
  it started, one after the other.
\<close>

definition exampleFetch :: "event list" where
  "exampleFetch = [Start 0, Test 0, Mark 0, Acquire 0, IssueGet 0]"

definition exampleExpand :: "event list" where
  "exampleExpand = exampleFetch @ [Respond 0 (Some indexResp) False False, Finish 0]"

definition exampleRun :: "event list" where
  "exampleRun =
     exampleExpand @
     [Start 1, Test 1, Mark 1, Acquire 1, IssueGet 1, Respond 1 (Some pngResp) False False,
      Start 2, Test 2, Mark 2, Acquire 2, IssueGet 2, Respond 2 (Some notFoundResp) False False,
      Start 3, Test 3]"

text \<open>
  The same site mirrored from \<open>https://example.com/#top\<close>: the first task to its end, then
  the task for the link of the page to its own top, up to its request.
\<close>

definition topBase :: url where
  "topBase = exampleBase\<lparr>Fragment := ''top''\<rparr>"

definition topLib :: lib where
  "topLib =
     exampleLib\<lparr>url_Parse := (\<lambda>s. if s = ''https://example.com/#top'' then Some topBase else None)\<rparr>"

definition topRun :: "event list" where
  "topRun = exampleExpand @ [Start 3, Test 3, Mark 3, Acquire 3, IssueGet 3]"

text \<open>What is read off a run in the examples.\<close>

definition summary ::
  "run \<Rightarrow> nat \<times> bool \<times> bool \<times> (string \<times> int) list \<times> (string \<times> int \<times> pc) list" where
  "summary s =
     (sem s, locked s, crashed s, gets s,
      map (\<lambda>t. (exampleString (turl t), tdepth t, tpc t)) (tasks s))"

section \<open>Properties\<close>

subsection \<open>Lemmas on paths\<close>

lemma elems_nonempty [simp]: "elems p \<noteq> []"
  by (induction p) (auto split: list.splits)

lemma elems_append: "elems (a @ CHR ''/'' # b) = elems a @ elems b"
  by (induction a) (auto split: list.splits)

lemma elems_slashFree: "e \<in> set (elems p) \<Longrightarrow> CHR ''/'' \<notin> set e"
proof (induction p arbitrary: e)
  case Nil
  then show ?case by simp
next
  case (Cons c p)
  obtain x xs where x: "elems p = x # xs" by (cases "elems p") auto
  with Cons show ?case by (auto split: if_splits)
qed

lemma joinSep_elems: "joinSep (elems p) = p"
proof (induction p)
  case Nil
  then show ?case by simp
next
  case (Cons c p)
  obtain x xs where x: "elems p = x # xs" by (cases "elems p") auto
  with Cons show ?case by (cases xs) (auto split: if_splits)
qed

lemma joinSep_Cons: "es \<noteq> [] \<Longrightarrow> joinSep (e # es) = e @ CHR ''/'' # joinSep es"
  by (cases es) auto

lemma elems_single: "CHR ''/'' \<notin> set e \<Longrightarrow> elems e = [e]"
  by (induction e) auto

lemma elems_joinSep:
  "es \<noteq> [] \<Longrightarrow> (\<forall>e \<in> set es. CHR ''/'' \<notin> set e) \<Longrightarrow> elems (joinSep es) = es"
proof (induction es rule: joinSep.induct)
  case 1
  then show ?case by simp
next
  case (2 e)
  then show ?case by (simp add: elems_single)
next
  case (3 e v va)
  then show ?case by (simp add: elems_append elems_single)
qed

lemma last_elems: "last (elems p) = rev (takeWhile (\<lambda>c. c \<noteq> CHR ''/'') (rev p))"
proof (induction p)
  case Nil
  then show ?case by simp
next
  case (Cons c p)
  obtain x xs where x: "elems p = x # xs" by (cases "elems p") auto
  show ?case
  proof (cases "CHR ''/'' \<in> set p")
    case True
    then have "xs \<noteq> []" using x elems_single[of p]
      by (metis elems_slashFree joinSep.simps(2) joinSep_elems list.set_intros(1))
    with Cons x True show ?thesis by (auto simp: takeWhile_append split: if_splits)
  next
    case False
    then have "elems p = [p]" by (rule elems_single)
    with False show ?thesis by (auto simp: takeWhile_append)
  qed
qed

lemma nf_tl: "nf r st \<Longrightarrow> nf r (tl st)"
  by (cases st) auto

lemma nf_cleanStep: "nf r st \<Longrightarrow> CHR ''/'' \<notin> set e \<Longrightarrow> nf r (cleanStep r st e)"
  by (cases st) (auto simp: cleanStep_def)

lemma nf_foldl:
  "nf r st \<Longrightarrow> (\<forall>e \<in> set es. CHR ''/'' \<notin> set e) \<Longrightarrow> nf r (foldl (cleanStep r) st es)"
  by (induction es arbitrary: st) (auto simp: nf_cleanStep)

lemma nf_stackOf: "nf (isRooted p) (stackOf p)"
  unfolding stackOf_def by (rule nf_foldl) (auto dest: elems_slashFree)

lemma foldl_names:
  "(\<forall>e \<in> set ns. name e) \<Longrightarrow> foldl (cleanStep r) st ns = rev ns @ st"
  by (induction ns arbitrary: st) (auto simp: cleanStep_def name_def)

lemma nf_idem: "nf r st \<Longrightarrow> foldl (cleanStep r) [] (rev st) = st"
proof (induction st)
  case Nil
  then show ?case by simp
next
  case (Cons e st)
  then have "foldl (cleanStep r) [] (rev st) = st" by simp
  then have "foldl (cleanStep r) [] (rev (e # st)) = cleanStep r st e" by simp
  also have "\<dots> = e # st"
  proof (cases "e = ''..''")
    case True
    with Cons.prems have nr: "\<not> r" and dd: "\<forall>x \<in> set st. x = ''..''" by simp_all
    from dd have "st = [] \<or> hd st = ''..''" by (cases st) simp_all
    with True nr show ?thesis unfolding cleanStep_def by auto
  next
    case False
    moreover from Cons.prems have "e \<noteq> []" "e \<noteq> ''.''" by simp_all
    ultimately show ?thesis unfolding cleanStep_def by simp
  qed
  finally show ?case .
qed

lemma nf_slashFree: "nf r st \<Longrightarrow> e \<in> set st \<Longrightarrow> CHR ''/'' \<notin> set e \<and> e \<noteq> []"
  by (induction st) auto

lemma foldl_skip_empty: "foldl (cleanStep r) st ([] # es) = foldl (cleanStep r) st es"
  by (simp add: cleanStep_def)

lemma foldl_elems_joinSep:
  "(\<forall>e \<in> set es. CHR ''/'' \<notin> set e) \<Longrightarrow>
   foldl (cleanStep r) st (elems (joinSep es)) = foldl (cleanStep r) st es"
  by (cases "es = []") (simp_all add: elems_joinSep cleanStep_def)

lemma joinSep_nonempty: "es \<noteq> [] \<Longrightarrow> hd es \<noteq> [] \<Longrightarrow> joinSep es \<noteq> []"
  by (induction es rule: joinSep.induct) auto

lemma isRooted_joinSep:
  "es \<noteq> [] \<Longrightarrow> hd es \<noteq> [] \<Longrightarrow> CHR ''/'' \<notin> set (hd es) \<Longrightarrow> \<not> isRooted (joinSep es)"
proof -
  assume a: "es \<noteq> []" "hd es \<noteq> []" "CHR ''/'' \<notin> set (hd es)"
  then obtain e es' where es: "es = e # es'" by (cases es) auto
  with a obtain c cs where e: "e = c # cs" "c \<noteq> CHR ''/''" by (cases e) auto
  show ?thesis
    using es e by (cases es') (auto simp: isRooted_def)
qed

lemma render_props:
  assumes "nf r st"
  shows "isRooted (render r st) = r"
    and "foldl (cleanStep r) [] (elems (render r st)) = st"
    and "render r st \<noteq> []"
proof -
  have sf: "\<forall>e \<in> set (rev st). CHR ''/'' \<notin> set e" using assms nf_slashFree by auto
  show "isRooted (render r st) = r"
  proof (cases r)
    case True
    then show ?thesis by (simp add: render_def isRooted_def)
  next
    case False
    show ?thesis
    proof (cases "st = []")
      case True
      with False show ?thesis by (simp add: render_def isRooted_def)
    next
      case st: False
      then have "hd (rev st) \<in> set st" by (metis hd_in_set rev_is_Nil_conv set_rev)
      with assms nf_slashFree have "hd (rev st) \<noteq> []" "CHR ''/'' \<notin> set (hd (rev st))" by auto
      with st have "\<not> isRooted (joinSep (rev st))" by (intro isRooted_joinSep) auto
      with False st show ?thesis by (simp add: render_def)
    qed
  qed
  show "foldl (cleanStep r) [] (elems (render r st)) = st"
  proof (cases r)
    case True
    have "foldl (cleanStep r) [] (elems (render r st))
            = foldl (cleanStep r) [] (elems (joinSep (rev st)))"
      using True by (simp add: render_def cleanStep_def)
    also have "\<dots> = foldl (cleanStep r) [] (rev st)" using sf by (rule foldl_elems_joinSep)
    also have "\<dots> = st" using assms by (rule nf_idem)
    finally show ?thesis .
  next
    case False
    show ?thesis
    proof (cases "st = []")
      case True
      with False show ?thesis by (simp add: render_def cleanStep_def)
    next
      case st: False
      have "foldl (cleanStep r) [] (elems (render r st))
            = foldl (cleanStep r) [] (elems (joinSep (rev st)))"
        using False st by (simp add: render_def)
      also have "\<dots> = foldl (cleanStep r) [] (rev st)" using sf by (rule foldl_elems_joinSep)
      also have "\<dots> = st" using assms by (rule nf_idem)
      finally show ?thesis .
    qed
  qed
  show "render r st \<noteq> []"
  proof (cases "st = []")
    case True
    then show ?thesis by (simp add: render_def)
  next
    case False
    then have "hd (rev st) \<in> set st" by (metis hd_in_set rev_is_Nil_conv set_rev)
    with assms nf_slashFree have "hd (rev st) \<noteq> []" by auto
    with False have "joinSep (rev st) \<noteq> []" by (intro joinSep_nonempty) auto
    then show ?thesis by (simp add: render_def)
  qed
qed

lemma Clean_render: "p \<noteq> [] \<Longrightarrow> Clean p = render (isRooted p) (stackOf p)"
  by (simp add: Clean_def stackOf_def)

lemma Clean_nonempty [simp]: "Clean p \<noteq> []"
proof (cases "p = []")
  case True
  then show ?thesis by (simp add: Clean_def)
next
  case False
  then show ?thesis using render_props(3)[OF nf_stackOf[of p]] by (simp add: Clean_render)
qed

lemma isRooted_Clean: "p \<noteq> [] \<Longrightarrow> isRooted (Clean p) = isRooted p"
  using render_props(1)[OF nf_stackOf[of p]] by (simp add: Clean_render)

lemma stackOf_Clean: "p \<noteq> [] \<Longrightarrow> stackOf (Clean p) = stackOf p"
proof -
  assume p: "p \<noteq> []"
  have "stackOf (Clean p) = foldl (cleanStep (isRooted (Clean p))) [] (elems (Clean p))"
    by (simp add: stackOf_def)
  also have "\<dots> = foldl (cleanStep (isRooted p)) [] (elems (Clean p))"
    by (simp only: isRooted_Clean[OF p])
  also have "\<dots> = foldl (cleanStep (isRooted p)) [] (elems (render (isRooted p) (stackOf p)))"
    by (simp only: Clean_render[OF p])
  also have "\<dots> = stackOf p" using nf_stackOf[of p] by (rule render_props(2))
  finally show ?thesis .
qed

lemma Clean_idem [simp]: "Clean (Clean p) = Clean p"
proof (cases "p = []")
  case True
  then show ?thesis by (simp add: Clean_def cleanStep_def isRooted_def render_def)
next
  case False
  have "Clean (Clean p) = render (isRooted (Clean p)) (stackOf (Clean p))"
    by (rule Clean_render) simp
  also have "\<dots> = render (isRooted p) (stackOf p)"
    by (simp only: isRooted_Clean[OF False] stackOf_Clean[OF False])
  also have "\<dots> = Clean p" by (simp only: Clean_render[OF False])
  finally show ?thesis .
qed

lemma elems_slash: "elems (CHR ''/'' # x) = [] # elems x"
  by simp

lemma takeWhile_slashFree:
  "CHR ''/'' \<notin> set l \<Longrightarrow> takeWhile (\<lambda>c. c \<noteq> CHR ''/'') (rev l) = rev l"
  by (rule takeWhile_eq_all_conv[THEN iffD2]) auto

lemma Ext_last: "Ext p = Ext (last (elems p))"
proof -
  have sf: "CHR ''/'' \<notin> set (last (elems p))"
    using elems_slashFree[of "last (elems p)" p] by simp
  have a: "takeWhile (\<lambda>c. c \<noteq> CHR ''/'') (rev (last (elems p))) = rev (last (elems p))"
    using sf by (rule takeWhile_slashFree)
  have b: "takeWhile (\<lambda>c. c \<noteq> CHR ''/'') (rev p) = rev (last (elems p))"
    by (simp add: last_elems)
  show ?thesis unfolding Ext_def a b ..
qed

lemma last_elems_empty: "last (elems p) = [] \<longleftrightarrow> p = [] \<or> HasSuffix p ''/''"
proof (cases "p = []")
  case True
  then show ?thesis by simp
next
  case False
  then obtain q c where p: "p = q @ [c]" by (metis rev_exhaust)
  then show ?thesis
    by (auto simp: last_elems HasSuffix_def suffix_def)
qed

lemma Ext_empty_name:
  "Ext l = [] \<Longrightarrow> l \<noteq> [] \<Longrightarrow> CHR ''/'' \<notin> set l \<Longrightarrow> name l"
proof -
  assume e: "Ext l = []" and l: "l \<noteq> []" "CHR ''/'' \<notin> set l"
  from l(2) have "takeWhile (\<lambda>c. c \<noteq> CHR ''/'') (rev l) = rev l"
    by (intro takeWhile_eq_all_conv[THEN iffD2]) auto
  with e have "CHR ''.'' \<notin> set l" by (auto simp: Ext_def Let_def split: if_splits)
  then have "l \<noteq> ''.''" "l \<noteq> ''..''" by auto
  with l show ?thesis by (simp add: name_def)
qed

lemma foldl_last_name:
  assumes "es \<noteq> []" "name (last es)"
  shows "\<exists>st'. foldl (cleanStep r) st es = last es # st'"
proof -
  from assms(1) have "es = butlast es @ [last es]" by simp
  then have "foldl (cleanStep r) st es
               = cleanStep r (foldl (cleanStep r) st (butlast es)) (last es)"
    by (metis foldl_Cons foldl_Nil foldl_append)
  also have "\<dots> = last es # foldl (cleanStep r) st (butlast es)"
    using assms(2) by (simp add: cleanStep_def name_def)
  finally show ?thesis by blast
qed

lemma last_elems_render:
  assumes "nf r (l # st)"
  shows "last (elems (render r (l # st))) = l"
proof -
  have sf: "\<forall>e \<in> set (rev (l # st)). CHR ''/'' \<notin> set e"
  proof
    fix e assume "e \<in> set (rev (l # st))"
    then have "e \<in> set (l # st)" by simp
    with nf_slashFree[OF assms] show "CHR ''/'' \<notin> set e" by blast
  qed
  have "rev (l # st) \<noteq> []" by simp
  then have e: "elems (joinSep (rev (l # st))) = rev (l # st)"
    using sf by (rule elems_joinSep)
  have l: "last (rev (l # st)) = l" by simp
  show ?thesis
  proof (cases r)
    case True
    then have "render r (l # st) = CHR ''/'' # joinSep (rev (l # st))"
      unfolding render_def by simp
    then have "elems (render r (l # st)) = [] # elems (joinSep (rev (l # st)))"
      by (simp only: elems_slash)
    then have "last (elems (render r (l # st))) = last (rev (l # st))"
      unfolding e by simp
    with l show ?thesis by (simp only:)
  next
    case False
    then have "render r (l # st) = joinSep (rev (l # st))"
      unfolding render_def by simp
    then have "last (elems (render r (l # st))) = last (rev (l # st))"
      unfolding e by (simp only: e)
    with l show ?thesis by (simp only:)
  qed
qed

lemma last_elems_Clean:
  assumes "p \<noteq> []" "name (last (elems p))"
  shows "last (elems (Clean p)) = last (elems p)"
proof -
  from foldl_last_name[OF elems_nonempty assms(2), of "isRooted p" "[]"]
  obtain st' where st: "stackOf p = last (elems p) # st'" by (auto simp: stackOf_def)
  with nf_stackOf[of p] have "nf (isRooted p) (last (elems p) # st')" by simp
  then have "last (elems (render (isRooted p) (last (elems p) # st'))) = last (elems p)"
    by (rule last_elems_render)
  with st assms(1) show ?thesis by (simp add: Clean_render)
qed

lemma last_elems_Join2:
  assumes "q \<noteq> []" "name (last (elems q))"
  shows "last (elems (Join [R, q])) = last (elems q)"
proof (cases "R = []")
  case True
  with assms show ?thesis by (simp add: last_elems_Clean)
next
  case False
  have "last (elems (R @ CHR ''/'' # q)) = last (elems q)"
    by (simp add: elems_append)
  with assms(2) have "last (elems (Clean (R @ CHR ''/'' # q))) = last (elems q)"
    using last_elems_Clean[of "R @ CHR ''/'' # q"] by simp
  with False show ?thesis by simp
qed

lemma Ext_Join_Clean:
  assumes "P \<noteq> []" "name (last (elems P))"
  shows "Ext (Join [R, Clean P]) = Ext P"
proof -
  have c: "last (elems (Clean P)) = last (elems P)" using assms by (rule last_elems_Clean)
  have "last (elems (Join [R, Clean P])) = last (elems (Clean P))"
    using assms(2) c by (intro last_elems_Join2) simp_all
  with c show ?thesis using Ext_last[of "Join [R, Clean P]"] Ext_last[of P] by simp
qed

lemma makeLocalPath_appendsIndex:
  "makeLocalPath d u =
     (if appendsIndex d u then Join [Join [rootDir d, Clean (Path u)], ''index.html'']
      else Join [rootDir d, Clean (Path u)])"
  by (simp add: makeLocalPath_def appendsIndex_def Let_def)

lemma isRooted_append: "a \<noteq> [] \<Longrightarrow> isRooted (a @ b) = isRooted a"
  by (cases a) (simp_all add: isRooted_def)

lemma stackOf_append:
  "a \<noteq> [] \<Longrightarrow>
   stackOf (a @ CHR ''/'' # b) = foldl (cleanStep (isRooted a)) (stackOf a) (elems b)"
  by (simp add: stackOf_def isRooted_append elems_append)

lemma Clean_eq_stackOf:
  assumes "Clean p = Clean q" "p \<noteq> []" "q \<noteq> []"
  shows "stackOf p = stackOf q"
proof -
  have "stackOf p = stackOf (Clean p)" using assms(2) by (simp add: stackOf_Clean)
  also have "\<dots> = stackOf (Clean q)" by (simp only: assms(1))
  also have "\<dots> = stackOf q" using assms(3) by (simp add: stackOf_Clean)
  finally show ?thesis .
qed

lemma nf_rooted_names: "nf True st \<Longrightarrow> e \<in> set st \<Longrightarrow> name e"
  by (induction st) (auto simp: name_def)

lemma foldl_elems_Clean_rooted:
  assumes "isRooted P"
  shows "foldl (cleanStep r) st (elems (Clean P)) = stackOf P @ st"
proof -
  from assms have P: "P \<noteq> []" by (auto simp: isRooted_def)
  have nfP: "nf True (stackOf P)" using nf_stackOf[of P] assms by simp
  have names: "\<forall>e \<in> set (rev (stackOf P)). name e"
    using nf_rooted_names[OF nfP] by simp
  then have sf: "\<forall>e \<in> set (rev (stackOf P)). CHR ''/'' \<notin> set e" by (simp add: name_def)
  have "Clean P = CHR ''/'' # joinSep (rev (stackOf P))"
    using P assms by (simp add: Clean_render render_def)
  then have "foldl (cleanStep r) st (elems (Clean P))
               = foldl (cleanStep r) st ([] # elems (joinSep (rev (stackOf P))))"
    by (simp only: elems_slash)
  also have "\<dots> = foldl (cleanStep r) st (elems (joinSep (rev (stackOf P))))"
    by (rule foldl_skip_empty)
  also have "\<dots> = foldl (cleanStep r) st (rev (stackOf P))"
    using sf by (rule foldl_elems_joinSep)
  also have "\<dots> = rev (rev (stackOf P)) @ st" using names by (rule foldl_names)
  finally show ?thesis by simp
qed

lemma stackOf_Join_rooted:
  assumes "isRooted P"
  shows "stackOf (Join [R, Clean P]) = stackOf P @ (if R = [] then [] else stackOf R)"
proof (cases "R = []")
  case True
  from assms have P: "P \<noteq> []" by (auto simp: isRooted_def)
  from True have "Join [R, Clean P] = Clean P" by simp
  with True P show ?thesis by (simp add: stackOf_Clean)
next
  case False
  then have "Join [R, Clean P] = Clean (R @ CHR ''/'' # Clean P)" by simp
  then have "stackOf (Join [R, Clean P]) = stackOf (R @ CHR ''/'' # Clean P)"
    using False by (simp add: stackOf_Clean)
  also have "\<dots> = foldl (cleanStep (isRooted R)) (stackOf R) (elems (Clean P))"
    using False by (rule stackOf_append)
  also have "\<dots> = stackOf P @ stackOf R" using assms by (rule foldl_elems_Clean_rooted)
  finally show ?thesis using False by simp
qed

lemma Join_nonempty: "q \<noteq> [] \<Longrightarrow> Join [R, q] \<noteq> []"
  by simp

lemma stackOf_Join_index:
  assumes "J \<noteq> []"
  shows "stackOf (Join [J, ''index.html'']) = ''index.html'' # stackOf J"
proof -
  from assms have "Join [J, ''index.html''] = Clean (J @ CHR ''/'' # ''index.html'')" by simp
  then have "stackOf (Join [J, ''index.html'']) = stackOf (J @ CHR ''/'' # ''index.html'')"
    using assms by (simp add: stackOf_Clean)
  also have "\<dots> = foldl (cleanStep (isRooted J)) (stackOf J) (elems ''index.html'')"
    using assms by (rule stackOf_append)
  also have "\<dots> = ''index.html'' # stackOf J" by (simp add: cleanStep_def)
  finally show ?thesis .
qed

lemma Clean_rooted_stack:
  assumes "isRooted P" "isRooted Q" "stackOf P = stackOf Q"
  shows "Clean P = Clean Q"
proof -
  from assms have "P \<noteq> []" "Q \<noteq> []" by (auto simp: isRooted_def)
  with assms show ?thesis by (simp add: Clean_render)
qed

lemmas path_defs = makeLocalPath_def Clean_def render_def cleanStep_def isRooted_def HasSuffix_def
  Ext_def Dir_def Rel_def Let_def suffix_to_prefix

subsection \<open>Lemmas on \<open>collectLinks\<close>\<close>

lemma collectAttrs_find:
  "collectAttrs L d base k as =
     (case find (\<lambda>a. Key a = k \<and> candidate L d base a \<noteq> None) as of
        None \<Rightarrow> None
      | Some a \<Rightarrow> candidate L d base a)"
  by (induction as) (auto simp: candidate_def Let_def split: option.splits)

lemma candidate_kept:
  "candidate L d base a = Some u \<Longrightarrow>
     Host u = host d \<and> (Scheme u = ''http'' \<or> Scheme u = ''https'') \<and> Fragment u = []"
  by (auto simp: candidate_def Let_def split: option.splits if_splits)

lemma nodeLink_kept:
  "nodeLink L d base n = Some (p, u) \<Longrightarrow>
     Host u = host d \<and> (Scheme u = ''http'' \<or> Scheme u = ''https'') \<and> Fragment u = []"
  by (auto simp: nodeLink_def split: if_splits option.splits dest: candidate_kept)

lemma linksOf_append: "linksOf L d base (xs @ ys) = linksOf L d base xs @ linksOf L d base ys"
  by (simp add: linksOf_def map_filter_def)

lemma linksOf_kept:
  "(p, u) \<in> set (linksOf L d base ns) \<Longrightarrow>
     Host u = host d \<and> (Scheme u = ''http'' \<or> Scheme u = ''https'') \<and> Fragment u = []"
  using nodeLink_kept[of L d base _ p u]
  by (auto simp: linksOf_def map_filter_def)

lemma addLinks_append: "addLinks (xs @ ys) acc = addLinks ys (addLinks xs acc)"
  by (simp add: addLinks_def)

lemma collectVisit_links: "collectVisit L d base n acc = addLinks (linksOf L d base [n]) acc"
  by (auto simp: collectVisit_def nodeLink_def linksOf_def map_filter_def addLinks_def
        collectAttrs_find split: option.splits)

lemma traverse_collect:
  "traverse n (collectVisit L d base) acc = addLinks (linksOf L d base (preorder n)) acc"
proof (induction n arbitrary: acc)
  case (Node t dat as cs)
  have kids: "fold (\<lambda>c. traverse c (collectVisit L d base)) cs a
                = addLinks (linksOf L d base (concat (map preorder cs))) a" for a
    using Node.IH
  proof (induction cs arbitrary: a)
    case Nil
    show ?case by (simp add: linksOf_def map_filter_def addLinks_def)
  next
    case (Cons c cs)
    then show ?case by (simp add: linksOf_append addLinks_append)
  qed
  have "traverse (Node t dat as cs) (collectVisit L d base) acc
          = fold (\<lambda>c. traverse c (collectVisit L d base)) cs
              (collectVisit L d base (Node t dat as cs) acc)"
    by simp
  also have "\<dots> = addLinks (linksOf L d base (concat (map preorder cs)))
                     (collectVisit L d base (Node t dat as cs) acc)"
    by (rule kids)
  also have "\<dots> = addLinks (linksOf L d base (concat (map preorder cs)))
                     (addLinks (linksOf L d base [Node t dat as cs]) acc)"
    by (simp only: collectVisit_links)
  also have "\<dots> = addLinks (linksOf L d base ([Node t dat as cs] @ concat (map preorder cs))) acc"
    by (simp only: linksOf_append addLinks_append)
  finally show ?case by simp
qed

lemma collectLinks_linksOf:
  "collectLinks L d doc base =
     (map snd (filter (\<lambda>l. \<not> fst l) (linksOf L d base (preorder doc))),
      map snd (filter fst (linksOf L d base (preorder doc))))"
  by (simp add: collectLinks_def traverse_collect addLinks_def)

lemma collectLinks_member_kept:
  assumes "collectLinks L d doc base = (resources, pages)" "u \<in> set resources \<union> set pages"
  shows "Host u = host d \<and> (Scheme u = ''http'' \<or> Scheme u = ''https'') \<and> Fragment u = []"
proof -
  from assms obtain p where "(p, u) \<in> set (linksOf L d base (preorder doc))"
    unfolding collectLinks_linksOf by auto
  then show ?thesis by (rule linksOf_kept)
qed

subsection \<open>Lemmas on \<open>rewriteLinks\<close>\<close>

lemma rewriteAttrs_length [simp]: "length (rewriteAttrs L d base cur k as) = length as"
  by (induction as) (auto split: option.splits)

lemma rewriteAttrs_first:
  "j < length as \<Longrightarrow> relTo L d base cur k (as ! j) = Some rel \<Longrightarrow>
   (\<forall>j' < j. relTo L d base cur k (as ! j') = None) \<Longrightarrow>
   rewriteAttrs L d base cur k as ! j = (as ! j)\<lparr>Val := rel\<rparr>"
proof (induction as arbitrary: j)
  case Nil
  then show ?case by simp
next
  case (Cons a as)
  show ?case
  proof (cases j)
    case 0
    with Cons.prems show ?thesis
      by (auto simp: relTo_def split: option.splits if_splits)
  next
    case (Suc j')
    with Cons.prems have a: "relTo L d base cur k a = None" by auto
    have "rewriteAttrs L d base cur k as ! j' = (as ! j')\<lparr>Val := rel\<rparr>"
      using Cons.prems Suc by (intro Cons.IH) auto
    with a Suc show ?thesis
      by (auto simp: relTo_def split: option.splits if_splits)
  qed
qed

lemma rewriteAttrs_other:
  "j < length as \<Longrightarrow>
   relTo L d base cur k (as ! j) = None \<or> (\<exists>j' < j. relTo L d base cur k (as ! j') \<noteq> None) \<Longrightarrow>
   rewriteAttrs L d base cur k as ! j = as ! j"
proof (induction as arbitrary: j)
  case Nil
  then show ?case by simp
next
  case (Cons a as)
  show ?case
  proof (cases "relTo L d base cur k a")
    case None
    show ?thesis
    proof (cases j)
      case 0
      with None show ?thesis by (auto simp: relTo_def split: option.splits if_splits)
    next
      case (Suc j')
      from Cons.prems(2) Suc None
      have "relTo L d base cur k (as ! j') = None \<or> (\<exists>i < j'. relTo L d base cur k (as ! i) \<noteq> None)"
        by (auto simp: less_Suc_eq_0_disj)
      with Cons.IH[of j'] Cons.prems(1) Suc have "rewriteAttrs L d base cur k as ! j' = as ! j'"
        by simp
      with None Suc show ?thesis by (auto simp: relTo_def split: option.splits if_splits)
    qed
  next
    case (Some r)
    then have "rewriteAttrs L d base cur k (a # as) = a\<lparr>Val := r\<rparr> # as"
      by (auto simp: relTo_def split: option.splits if_splits)
    with Cons.prems Some show ?thesis by (cases j) auto
  qed
qed

lemma relTo_sameHost: "\<not> sameHost L d base (Val a) \<Longrightarrow> relTo L d base cur k a = None"
  by (auto simp: relTo_def sameHost_def split: option.splits)

lemma traverseAttr_preorder:
  "map Attr (preorder (traverseAttr n fn)) = map fn (preorder n)"
proof (induction n)
  case (Node t dat as cs)
  then have eq: "map (\<lambda>c. map Attr (preorder (traverseAttr c fn))) cs = map (\<lambda>c. map fn (preorder c)) cs"
    by simp
  have "map Attr (preorder (traverseAttr (Node t dat as cs) fn))
        = fn (Node t dat as cs) # concat (map (\<lambda>c. map Attr (preorder (traverseAttr c fn))) cs)"
    by (simp add: map_concat comp_def)
  also have "\<dots> = fn (Node t dat as cs) # concat (map (\<lambda>c. map fn (preorder c)) cs)"
    by (simp only: eq)
  also have "\<dots> = map fn (preorder (Node t dat as cs))"
    by (simp add: map_concat comp_def)
  finally show ?case .
qed

lemma rewriteLinks_attr:
  assumes "i < length (preorder doc)"
  shows "length (preorder (rewriteLinks L d doc base cur)) = length (preorder doc)"
    and "Attr (preorder (rewriteLinks L d doc base cur) ! i) = rewriteVisit L d base cur (preorder doc ! i)"
proof -
  have m: "map Attr (preorder (rewriteLinks L d doc base cur))
             = map (rewriteVisit L d base cur) (preorder doc)"
    by (simp add: rewriteLinks_def traverseAttr_preorder)
  from arg_cong[OF m, of length]
  show l: "length (preorder (rewriteLinks L d doc base cur)) = length (preorder doc)"
    by simp
  from arg_cong[OF m, of "\<lambda>xs. xs ! i"] assms l
  show "Attr (preorder (rewriteLinks L d doc base cur) ! i) = rewriteVisit L d base cur (preorder doc ! i)"
    by simp
qed

lemma rewriteVisit_length [simp]: "length (rewriteVisit L d base cur n) = length (Attr n)"
  by (simp add: rewriteVisit_def split: option.splits)

subsection \<open>\<open>Rel\<close> and \<open>Join\<close>\<close>

lemma takeWhile_joinSep:
  "CHR ''/'' \<notin> set e \<Longrightarrow> takeWhile (\<lambda>c. c \<noteq> CHR ''/'') (joinSep (e # es)) = e"
  by (cases es) (auto simp: takeWhile_append takeWhile_eq_all_conv)

lemma dropWhile_slashFree:
  "CHR ''/'' \<notin> set e \<Longrightarrow> dropWhile (\<lambda>c. c \<noteq> CHR ''/'') e = []"
  by (auto simp: dropWhile_eq_Nil_conv)

lemma dropWhile_joinSep:
  "CHR ''/'' \<notin> set e \<Longrightarrow>
   drop (Suc 0) (dropWhile (\<lambda>c. c \<noteq> CHR ''/'') (joinSep (e # es))) = joinSep es"
  by (cases es) (auto simp: dropWhile_append dropWhile_slashFree)

lemma joinSep_Cons_nonempty: "e \<noteq> [] \<Longrightarrow> joinSep (e # es) \<noteq> []"
  by (cases es) simp_all

lemma relLoop_joinSep:
  assumes "\<forall>e \<in> set B \<union> set T. e \<noteq> [] \<and> CHR ''/'' \<notin> set e"
  shows "relLoop (joinSep B) (joinSep T)
           = (case relElems B T of (bs, ts) \<Rightarrow> (joinSep bs, joinSep ts))"
  using assms
proof (induction B T rule: relElems.induct)
  case (1 ts)
  show ?case by (subst relLoop.simps) simp
next
  case (2 b bs)
  show ?case by (subst relLoop.simps) simp
next
  case (3 b bs t ts)
  then have b: "b \<noteq> []" "CHR ''/'' \<notin> set b" and t: "t \<noteq> []" "CHR ''/'' \<notin> set t" by simp_all
  have ne: "joinSep (b # bs) \<noteq> []" "joinSep (t # ts) \<noteq> []"
    using b t by (simp_all add: joinSep_Cons_nonempty)
  show ?case
  proof (cases "t = b")
    case True
    have "relLoop (joinSep (b # bs)) (joinSep (t # ts)) = relLoop (joinSep bs) (joinSep ts)"
      using ne b t True
      by (subst relLoop.simps) (simp add: takeWhile_joinSep dropWhile_joinSep)
    also have "\<dots> = (case relElems bs ts of (bs', ts') \<Rightarrow> (joinSep bs', joinSep ts'))"
      using 3 True by simp
    finally show ?thesis using True by simp
  next
    case False
    have "relLoop (joinSep (b # bs)) (joinSep (t # ts)) = (joinSep (b # bs), joinSep (t # ts))"
      using ne b t False
      by (subst relLoop.simps) (simp add: takeWhile_joinSep)
    then show ?thesis using False by simp
  qed
qed

lemma relElems_split: "relElems B T = (B', T') \<Longrightarrow> \<exists>C. B = C @ B' \<and> T = C @ T'"
proof (induction B T rule: relElems.induct)
  case (1 ts)
  then show ?case by simp
next
  case (2 b bs)
  then show ?case by simp
next
  case (3 b bs t ts)
  show ?case
  proof (cases "t = b")
    case True
    with 3 obtain C where "bs = C @ B'" "ts = C @ T'" by auto
    with True have "b # bs = (b # C) @ B' \<and> t # ts = (b # C) @ T'" by simp
    then show ?thesis by blast
  next
    case False
    with 3 show ?thesis by auto
  qed
qed

lemma count_joinSep:
  "(\<forall>e \<in> set bs. CHR ''/'' \<notin> set e) \<Longrightarrow> count_list (joinSep bs) (CHR ''/'') = length bs - 1"
proof (induction bs rule: joinSep.induct)
  case 1
  then show ?case by simp
next
  case (2 e)
  then show ?case by (simp add: count_list_0_iff)
next
  case (3 e v va)
  then show ?case by (simp add: count_list_0_iff)
qed

lemma joinSep_dots:
  "joinSep (replicate (Suc n) ''..'') = ''..'' @ concat (replicate n ''/..'')"
  by (induction n) simp_all

lemma joinSep_append:
  "xs \<noteq> [] \<Longrightarrow> ys \<noteq> [] \<Longrightarrow> joinSep (xs @ ys) = joinSep xs @ CHR ''/'' # joinSep ys"
proof (induction xs)
  case Nil
  then show ?case by simp
next
  case (Cons x xs)
  show ?case
  proof (cases xs)
    case Nil
    with Cons.prems show ?thesis by (simp add: joinSep_Cons)
  next
    case (Cons x' xs')
    with Cons.IH Cons.prems show ?thesis by simp
  qed
qed

lemma joinSep_empty: "(\<forall>e \<in> set es. e \<noteq> []) \<Longrightarrow> joinSep es = [] \<longleftrightarrow> es = []"
  by (cases es) (auto simp: joinSep_Cons_nonempty)

lemma foldl_pops:
  "(\<forall>e \<in> set bs. name e) \<Longrightarrow>
   foldl (cleanStep r) (rev bs @ st) (replicate (length bs) ''..'') = st"
proof (induction bs rule: rev_induct)
  case Nil
  then show ?case by simp
next
  case (snoc x xs)
  then have x: "x \<noteq> ''..''" by (simp add: name_def)
  have "cleanStep r (x # rev xs @ st) ''..'' = rev xs @ st"
    using x by (simp add: cleanStep_def)
  with snoc show ?case by simp
qed

lemma foldl_cleanStep_subset: "set (foldl (cleanStep r) st es) \<subseteq> set st \<union> set es"
proof (induction es arbitrary: st)
  case Nil
  then show ?case by simp
next
  case (Cons e es)
  have "set (cleanStep r st e) \<subseteq> set st \<union> {e}"
    using list.set_sel(2)[of st] by (auto simp: cleanStep_def)
  with Cons[of "cleanStep r st e"] show ?case by auto
qed

lemma nf_append: "nf r (xs @ ys) \<Longrightarrow> nf r xs \<and> nf r ys"
  by (induction xs) auto

lemma nf_names: "nf r st \<Longrightarrow> e \<in> set st \<Longrightarrow> e \<noteq> ''..'' \<Longrightarrow> name e"
  by (induction st) (auto simp: name_def)

text \<open>In the buffer of \<open>Clean\<close>, an element \<open>..\<close> has only \<open>..\<close> before it.\<close>

lemma nf_bottom: "nf r (st @ [e]) \<Longrightarrow> e \<noteq> ''..'' \<Longrightarrow> x \<in> set (st @ [e]) \<Longrightarrow> name x"
proof (induction st)
  case Nil
  then show ?case by (simp add: name_def)
next
  case (Cons a st)
  from Cons.prems(1,2) have a: "a \<noteq> ''..''" by auto
  with Cons.prems(1) have "name a" by (simp add: name_def)
  moreover from Cons.prems(1) have "nf r (st @ [e])" by simp
  ultimately show ?case using Cons.IH Cons.prems(2,3) by auto
qed

text \<open>What the loop of \<open>Rel\<close> leaves, and what \<open>Rel\<close> builds from it, on lists of elements.\<close>

lemma relLoop_result:
  assumes B: "\<forall>e \<in> set B. e \<noteq> [] \<and> CHR ''/'' \<notin> set e"
    and T: "\<forall>e \<in> set T. e \<noteq> [] \<and> CHR ''/'' \<notin> set e"
    and l: "relLoop (joinSep B) (joinSep T) = (brest, trest)"
  shows "\<exists>C bs ts. B = C @ bs \<and> T = C @ ts
           \<and> takeWhile (\<lambda>c. c \<noteq> CHR ''/'') brest = (if bs = [] then [] else hd bs)
           \<and> (if brest \<noteq> []
               then ''..'' @ concat (replicate (count_list brest (CHR ''/'')) ''/..'')
                    @ (if trest \<noteq> [] then CHR ''/'' # trest else [])
               else trest) = joinSep (replicate (length bs) ''..'' @ ts)"
proof -
  obtain bs ts where re: "relElems B T = (bs, ts)" by (cases "relElems B T") auto
  have "relLoop (joinSep B) (joinSep T) = (joinSep bs, joinSep ts)"
    using relLoop_joinSep[of B T] B T re by auto
  with l have eq: "brest = joinSep bs" "trest = joinSep ts" by simp_all
  from relElems_split[OF re] obtain C where C: "B = C @ bs" "T = C @ ts" by blast
  have bs: "\<forall>e \<in> set bs. e \<noteq> [] \<and> CHR ''/'' \<notin> set e" using B C by simp
  have ts: "\<forall>e \<in> set ts. e \<noteq> [] \<and> CHR ''/'' \<notin> set e" using T C by simp
  have be: "brest = [] \<longleftrightarrow> bs = []" using bs by (simp add: eq joinSep_empty)
  have te: "trest = [] \<longleftrightarrow> ts = []" using ts by (simp add: eq joinSep_empty)
  have first: "takeWhile (\<lambda>c. c \<noteq> CHR ''/'') brest = (if bs = [] then [] else hd bs)"
  proof (cases bs)
    case Nil
    then show ?thesis by (simp add: eq)
  next
    case (Cons x xs)
    with bs have "CHR ''/'' \<notin> set x" by simp
    then show ?thesis unfolding eq Cons by (simp add: takeWhile_joinSep del: joinSep.simps)
  qed
  have r: "(if brest \<noteq> []
            then ''..'' @ concat (replicate (count_list brest (CHR ''/'')) ''/..'')
                 @ (if trest \<noteq> [] then CHR ''/'' # trest else [])
            else trest) = joinSep (replicate (length bs) ''..'' @ ts)"
  proof (cases "bs = []")
    case True
    then show ?thesis using be by (simp add: eq)
  next
    case False
    then obtain n where n: "length bs = Suc n" by (cases bs) auto
    have cnt: "count_list brest (CHR ''/'') = n"
      using count_joinSep[of bs] bs n by (simp add: eq)
    have d: "''..'' @ concat (replicate n ''/..'') = joinSep (replicate (length bs) ''..'')"
      unfolding n by (rule joinSep_dots[symmetric])
    show ?thesis
    proof (cases "ts = []")
      case True
      with False be te cnt d show ?thesis by simp
    next
      case nts: False
      have "joinSep (replicate (length bs) ''..'' @ ts)
              = joinSep (replicate (length bs) ''..'') @ CHR ''/'' # joinSep ts"
        using nts n by (intro joinSep_append) simp_all
      with False nts be te cnt d show ?thesis by (simp add: eq)
    qed
  qed
  from C first r show ?thesis by blast
qed

lemma foldl_up_down:
  assumes "nf r (rev (C @ bs))" "\<forall>e \<in> set bs. name e" "\<forall>e \<in> set ts. CHR ''/'' \<notin> set e"
  shows "foldl (cleanStep r) (rev (C @ bs)) (elems (joinSep (replicate (length bs) ''..'' @ ts)))
           = foldl (cleanStep r) [] (C @ ts)"
proof -
  have sf: "\<forall>e \<in> set (replicate (length bs) ''..'' @ ts). CHR ''/'' \<notin> set e"
    using assms(3) by auto
  from assms(1) have "nf r (rev bs @ rev C)" by simp
  then have "nf r (rev C)" using nf_append by blast
  then have idem: "foldl (cleanStep r) [] (rev (rev C)) = rev C" by (rule nf_idem)
  have "foldl (cleanStep r) (rev (C @ bs)) (elems (joinSep (replicate (length bs) ''..'' @ ts)))
          = foldl (cleanStep r) (rev (C @ bs)) (replicate (length bs) ''..'' @ ts)"
    using sf by (rule foldl_elems_joinSep)
  also have "\<dots> = foldl (cleanStep r)
                     (foldl (cleanStep r) (rev bs @ rev C) (replicate (length bs) ''..'')) ts"
    by simp
  also have "\<dots> = foldl (cleanStep r) (rev C) ts"
    using assms(2) by (simp add: foldl_pops)
  also have "\<dots> = foldl (cleanStep r) (foldl (cleanStep r) [] C) ts"
    using idem by simp
  finally show ?thesis by simp
qed

text \<open>Cleaning a path that is not rooted before it is appended changes nothing.\<close>

lemma foldl_rev_stack:
  assumes "\<forall>e \<in> set es. CHR ''/'' \<notin> set e"
  shows "foldl (cleanStep r) st (rev (foldl (cleanStep False) [] es)) = foldl (cleanStep r) st es"
  using assms
proof (induction es rule: rev_induct)
  case Nil
  then show ?case by simp
next
  case (snoc e es)
  define S where "S = foldl (cleanStep False) [] es"
  have IH: "foldl (cleanStep r) st (rev S) = foldl (cleanStep r) st es"
    using snoc by (simp add: S_def)
  have nfS: "nf False S" unfolding S_def using snoc.prems by (intro nf_foldl) auto
  have goal: "foldl (cleanStep r) st (rev (cleanStep False S e))
                = cleanStep r (foldl (cleanStep r) st (rev S)) e"
  proof (cases "e = [] \<or> e = ''.''")
    case True
    then show ?thesis by (auto simp: cleanStep_def)
  next
    case False
    show ?thesis
    proof (cases "e = ''..'' \<and> S \<noteq> [] \<and> hd S \<noteq> ''..''")
      case True
      then obtain x S' where S: "S = x # S'" and x: "x \<noteq> ''..''" by (cases S) auto
      from nfS S x have nx: "x \<noteq> []" "x \<noteq> ''.''" by auto
      have push: "cleanStep r (foldl (cleanStep r) st (rev S')) x
                    = x # foldl (cleanStep r) st (rev S')"
        using nx x by (simp add: cleanStep_def)
      have "cleanStep False S e = S'" using True S by (simp add: cleanStep_def)
      moreover have "cleanStep r (foldl (cleanStep r) st (rev S)) e = foldl (cleanStep r) st (rev S')"
        using True x by (simp add: S push) (simp add: cleanStep_def)
      ultimately show ?thesis by simp
    next
      case nopop: False
      with False have "cleanStep False S e = e # S" by (auto simp: cleanStep_def)
      then show ?thesis by simp
    qed
  qed
  show ?case using goal IH by (simp add: S_def)
qed

lemma foldl_Clean_unrooted:
  assumes "\<not> isRooted p"
  shows "foldl (cleanStep r) st (elems (Clean p)) = foldl (cleanStep r) st (elems p)"
proof (cases "p = []")
  case True
  then show ?thesis by (simp add: Clean_def cleanStep_def)
next
  case False
  have sf: "\<forall>e \<in> set (elems p). CHR ''/'' \<notin> set e" by (auto dest: elems_slashFree)
  have S: "stackOf p = foldl (cleanStep False) [] (elems p)"
    using assms by (simp add: stackOf_def)
  have nfS: "nf False (stackOf p)" using nf_stackOf[of p] assms by simp
  have sfS: "\<forall>e \<in> set (rev (stackOf p)). CHR ''/'' \<notin> set e"
    using nf_slashFree[OF nfS] by auto
  have "foldl (cleanStep r) st (elems (Clean p)) = foldl (cleanStep r) st (rev (stackOf p))"
  proof (cases "stackOf p = []")
    case True
    with False assms show ?thesis by (simp add: Clean_render render_def cleanStep_def)
  next
    case ne: False
    with False assms have "Clean p = joinSep (rev (stackOf p))"
      by (simp add: Clean_render render_def)
    then show ?thesis using foldl_elems_joinSep[OF sfS] by simp
  qed
  also have "\<dots> = foldl (cleanStep r) st (elems p)"
    unfolding S using sf by (rule foldl_rev_stack)
  finally show ?thesis .
qed

lemma relLoop_slash: "relLoop (CHR ''/'' # x) (CHR ''/'' # y) = relLoop x y"
  by (subst relLoop.simps) simp

text \<open>A cleaned path is its elements joined, after the root when it is rooted.\<close>

lemma Clean_repr:
  assumes "Clean p = p"
  shows "\<exists>T. (\<forall>e \<in> set T. e \<noteq> [] \<and> CHR ''/'' \<notin> set e)
           \<and> p = (if isRooted p then CHR ''/'' # joinSep T else joinSep T)
           \<and> foldl (cleanStep (isRooted p)) [] T = stackOf p"
proof -
  have ne: "p \<noteq> []" using Clean_nonempty[of p] assms by simp
  have nfp: "nf (isRooted p) (stackOf p)" by (rule nf_stackOf)
  have p: "p = render (isRooted p) (stackOf p)" using Clean_render[OF ne] assms by simp
  have sf: "\<forall>e \<in> set (rev (stackOf p)). e \<noteq> [] \<and> CHR ''/'' \<notin> set e"
    using nf_slashFree[OF nfp] by auto
  have idem: "foldl (cleanStep (isRooted p)) [] (rev (stackOf p)) = stackOf p"
    using nfp by (rule nf_idem)
  show ?thesis
  proof (cases "\<not> isRooted p \<and> stackOf p = []")
    case True
    then have "p = ''.''" using p by (simp add: render_def)
    with True have "(\<forall>e \<in> set [''.'']. e \<noteq> [] \<and> CHR ''/'' \<notin> set e)
           \<and> p = (if isRooted p then CHR ''/'' # joinSep [''.''] else joinSep [''.''])
           \<and> foldl (cleanStep (isRooted p)) [] [''.''] = stackOf p"
      by (simp add: cleanStep_def)
    then show ?thesis by blast
  next
    case False
    then have "p = (if isRooted p then CHR ''/'' # joinSep (rev (stackOf p))
                    else joinSep (rev (stackOf p)))"
      using p by (auto simp: render_def)
    with sf idem show ?thesis by blast
  qed
qed

lemma Clean_Join2:
  assumes "b \<noteq> []"
  shows "Join [b, r] = render (isRooted b) (foldl (cleanStep (isRooted b)) (stackOf b) (elems r))"
proof -
  have "Join [b, r] = Clean (b @ CHR ''/'' # r)" using assms by simp
  also have "\<dots> = render (isRooted (b @ CHR ''/'' # r)) (stackOf (b @ CHR ''/'' # r))"
    by (rule Clean_render) simp
  also have "\<dots> = render (isRooted b) (foldl (cleanStep (isRooted b)) (stackOf b) (elems r))"
    by (simp only: isRooted_append[OF assms] stackOf_append[OF assms])
  finally show ?thesis .
qed

lemma joinSep_not_dot: "(\<forall>e \<in> set B. e \<noteq> [] \<and> e \<noteq> ''.'') \<Longrightarrow> joinSep B \<noteq> ''.''"
proof (cases B)
  case Nil
  then show ?thesis by simp
next
  case (Cons e es)
  then have Be: "B = e # es" by simp
  assume "\<forall>e \<in> set B. e \<noteq> [] \<and> e \<noteq> ''.''"
  with Be have e: "e \<noteq> []" "e \<noteq> ''.''" by simp_all
  then obtain c cs where ce: "e = c # cs" by (cases e) auto
  show ?thesis
  proof (cases es)
    case Nil
    with Be e show ?thesis by simp
  next
    case (Cons e' es')
    with Be ce show ?thesis by simp
  qed
qed

lemma nf_not_dot: "nf r st \<Longrightarrow> e \<in> set st \<Longrightarrow> e \<noteq> ''.''"
  by (induction st) auto

text \<open>The two paths the loop of \<open>Rel\<close> walks, as lists of elements.\<close>

lemma Rel_elems:
  assumes cb: "Clean b = b" and ct: "Clean targ = targ" and rt: "isRooted targ = isRooted b"
  shows "\<exists>B T. (\<forall>e \<in> set B. e \<noteq> [] \<and> CHR ''/'' \<notin> set e)
           \<and> (\<forall>e \<in> set T. e \<noteq> [] \<and> CHR ''/'' \<notin> set e)
           \<and> stackOf b = rev B
           \<and> foldl (cleanStep (isRooted b)) [] T = stackOf targ
           \<and> relLoop (if b = ''.'' then [] else b) targ = relLoop (joinSep B) (joinSep T)"
proof -
  define base where "base = (if b = ''.'' then [] else b)"
  have bne: "b \<noteq> []" using Clean_nonempty[of b] cb by simp
  have b_render: "b = render (isRooted b) (stackOf b)"
    using Clean_render[OF bne] cb by simp
  from Clean_repr[OF ct] rt obtain T where
    T: "\<forall>e \<in> set T. e \<noteq> [] \<and> CHR ''/'' \<notin> set e"
    and targT: "targ = (if isRooted b then CHR ''/'' # joinSep T else joinSep T)"
    and stT: "foldl (cleanStep (isRooted b)) [] T = stackOf targ"
    by auto
  define B where "B = rev (stackOf b)"
  have sb: "stackOf b = rev B" by (simp add: B_def)
  have Bn: "\<forall>e \<in> set B. e \<noteq> [] \<and> CHR ''/'' \<notin> set e"
    using nf_slashFree[OF nf_stackOf[of b]] by (auto simp: B_def)
  have Bd: "\<forall>e \<in> set B. e \<noteq> [] \<and> e \<noteq> ''.''"
    using Bn nf_not_dot[OF nf_stackOf[of b]] by (auto simp: B_def)
  have baseB: "base = (if isRooted b then CHR ''/'' # joinSep B else joinSep B)"
  proof (cases "isRooted b")
    case True
    then have "b \<noteq> ''.''" by (auto simp: isRooted_def)
    with True b_render show ?thesis by (simp add: base_def render_def B_def)
  next
    case nr: False
    show ?thesis
    proof (cases "stackOf b = []")
      case True
      with nr b_render have "b = ''.''" by (simp add: render_def)
      with nr True show ?thesis by (simp add: base_def B_def)
    next
      case False
      with nr b_render have bj: "b = joinSep B" by (simp add: render_def B_def)
      with joinSep_not_dot[OF Bd] have "b \<noteq> ''.''" by simp
      with nr bj show ?thesis by (simp add: base_def)
    qed
  qed
  have "relLoop base targ = relLoop (joinSep B) (joinSep T)"
    unfolding baseB targT by (simp add: relLoop_slash)
  with Bn T sb stT show ?thesis unfolding base_def by blast
qed

text \<open>
  The contract of \<open>Rel\<close>: the base joined with the path it returns is the target, cleaned.
\<close>

lemma Rel_Join:
  assumes rel: "Rel b t = Some r" and cb: "Clean b = b"
  shows "Join [b, r] = Clean t"
proof -
  define targ where "targ = Clean t"
  have ct: "Clean targ = targ" by (simp add: targ_def)
  have bne: "b \<noteq> []" using Clean_nonempty[of b] cb by simp
  have tne: "targ \<noteq> []" by (simp add: targ_def)
  have targ_render: "targ = render (isRooted targ) (stackOf targ)"
    using Clean_render[OF tne] ct by simp
  have b_render: "b = render (isRooted b) (stackOf b)"
    using Clean_render[OF bne] cb by simp
  have J: "Join [b, r] = render (isRooted b) (foldl (cleanStep (isRooted b)) (stackOf b) (elems r))"
    using bne by (rule Clean_Join2)
  show ?thesis
  proof (cases "targ = b")
    case True
    with rel cb have r: "r = ''.''" by (simp add: Rel_def Let_def targ_def)
    have "foldl (cleanStep (isRooted b)) (stackOf b) (elems r) = stackOf b"
      unfolding r by (simp add: cleanStep_def)
    with J b_render True show ?thesis by (simp add: targ_def)
  next
    case False
    define base where "base = (if b = ''.'' then [] else b)"
    obtain brest trest where l: "relLoop base targ = (brest, trest)"
      by (cases "relLoop base targ") auto
    define r0 where "r0 = (if brest \<noteq> []
            then ''..'' @ concat (replicate (count_list brest (CHR ''/'')) ''/..'')
                 @ (if trest \<noteq> [] then CHR ''/'' # trest else [])
            else trest)"
    from rel False cb l
    have rooted: "isRooted base = isRooted targ"
      and noerr: "takeWhile (\<lambda>c. c \<noteq> CHR ''/'') brest \<noteq> ''..''"
      and r: "r = Clean r0"
      by (auto simp: Rel_def Let_def targ_def[symmetric] base_def[symmetric] r0_def
               split: if_splits)
    have rb: "isRooted base = isRooted b" by (simp add: base_def isRooted_def)
    with rooted have rt: "isRooted targ = isRooted b" by simp
    from Rel_elems[OF cb ct rt] obtain B T where
      Bn: "\<forall>e \<in> set B. e \<noteq> [] \<and> CHR ''/'' \<notin> set e"
      and T: "\<forall>e \<in> set T. e \<noteq> [] \<and> CHR ''/'' \<notin> set e"
      and sb: "stackOf b = rev B"
      and stT: "foldl (cleanStep (isRooted b)) [] T = stackOf targ"
      and lB: "relLoop base targ = relLoop (joinSep B) (joinSep T)"
      unfolding base_def by blast
    from l lB have l': "relLoop (joinSep B) (joinSep T) = (brest, trest)" by simp
    from relLoop_result[OF Bn T l'] obtain C bs ts where
      C: "B = C @ bs" "T = C @ ts"
      and first: "takeWhile (\<lambda>c. c \<noteq> CHR ''/'') brest = (if bs = [] then [] else hd bs)"
      and rr: "r0 = joinSep (replicate (length bs) ''..'' @ ts)"
      unfolding r0_def by blast
    have nfB: "nf (isRooted b) (rev (C @ bs))"
      using nf_stackOf[of b] by (simp only: sb C(1))
    have n: "\<forall>e \<in> set bs. name e"
    proof (cases bs)
      case Nil
      then show ?thesis by simp
    next
      case (Cons x xs)
      with first noerr have x: "x \<noteq> ''..''" by simp
      from nfB have "nf (isRooted b) (rev bs @ rev C)" by simp
      then have "nf (isRooted b) (rev bs)" using nf_append by blast
      then have "nf (isRooted b) (rev xs @ [x])" by (simp add: Cons)
      from nf_bottom[OF this x] show ?thesis by (auto simp: Cons)
    qed
    have s: "\<forall>e \<in> set ts. CHR ''/'' \<notin> set e" using T C by simp
    have unrooted: "\<not> isRooted r0"
    proof (cases "replicate (length bs) ''..'' @ ts")
      case Nil
      then show ?thesis by (simp add: rr isRooted_def)
    next
      case (Cons x xs)
      then have "x \<in> set (replicate (length bs) ''..'' @ ts)" by simp
      then have "x \<noteq> [] \<and> CHR ''/'' \<notin> set x" using T C by auto
      then show ?thesis unfolding rr Cons by (intro isRooted_joinSep) simp_all
    qed
    have "foldl (cleanStep (isRooted b)) (stackOf b) (elems r)
            = foldl (cleanStep (isRooted b)) (stackOf b) (elems r0)"
      unfolding r using unrooted by (rule foldl_Clean_unrooted)
    also have "\<dots> = foldl (cleanStep (isRooted b)) (rev (C @ bs)) (elems r0)"
      by (simp only: sb C(1))
    also have "\<dots> = foldl (cleanStep (isRooted b)) [] (C @ ts)"
      unfolding rr using nfB n s by (rule foldl_up_down)
    also have "\<dots> = stackOf targ" using stT C by simp
    finally have "Join [b, r] = render (isRooted targ) (stackOf targ)"
      using J rt by simp
    with targ_render show ?thesis by (simp add: targ_def)
  qed
qed

text \<open>
  \<open>Rel\<close> finds a path from a base without \<open>..\<close> to any target that is rooted when the
  base is.
\<close>

lemma Rel_total:
  assumes cb: "Clean b = b" and nd: "''..'' \<notin> set (elems b)"
    and rt: "isRooted (Clean t) = isRooted b"
  shows "\<exists>r. Rel b t = Some r"
proof -
  have ct: "Clean (Clean t) = Clean t" by simp
  from Rel_elems[OF cb ct rt] obtain B T where
    Bn: "\<forall>e \<in> set B. e \<noteq> [] \<and> CHR ''/'' \<notin> set e"
    and T: "\<forall>e \<in> set T. e \<noteq> [] \<and> CHR ''/'' \<notin> set e"
    and sb: "stackOf b = rev B"
    and l: "relLoop (if b = ''.'' then [] else b) (Clean t) = relLoop (joinSep B) (joinSep T)"
    by blast
  obtain brest trest where l': "relLoop (joinSep B) (joinSep T) = (brest, trest)"
    by (cases "relLoop (joinSep B) (joinSep T)") auto
  from relLoop_result[OF Bn T l'] obtain C bs ts where
    C: "B = C @ bs"
    and first: "takeWhile (\<lambda>c. c \<noteq> CHR ''/'') brest = (if bs = [] then [] else hd bs)"
    by blast
  have "set (stackOf b) \<subseteq> set (elems b)"
    using foldl_cleanStep_subset[of "isRooted b" "[]" "elems b"] by (simp add: stackOf_def)
  with nd sb have "''..'' \<notin> set B" by auto
  with C first have noerr: "takeWhile (\<lambda>c. c \<noteq> CHR ''/'') brest \<noteq> ''..''"
    by (cases bs) auto
  have rb: "isRooted (if b = ''.'' then [] else b) = isRooted b" by (simp add: isRooted_def)
  show ?thesis
    using noerr rt by (simp add: Rel_def Let_def cb l l' rb)
qed

lemma Join_Clean: "q \<noteq> [] \<Longrightarrow> Clean (Join [R, q]) = Join [R, q]"
  by simp

lemma makeLocalPath_Clean: "Clean (makeLocalPath d u) = makeLocalPath d u"
  by (simp add: makeLocalPath_def Let_def Join_Clean del: Join.simps)

lemma Dir_Clean: "Clean (Dir p) = Dir p"
  by (simp add: Dir_def)

text \<open>\<open>Rel\<close> on some paths: the results of \<open>filepath.Rel\<close>, an error being \<open>None\<close>.\<close>

lemma Rel_examples:
  "Rel ''a/b'' ''a/b/.'' = Some ''.''"
  "Rel ''ab/cd'' ''ab/cde'' = Some ''../cde''"
  "Rel ''a/b'' ''a/b/c/d'' = Some ''c/d''"
  "Rel ''a/b'' ''a/b/../c'' = Some ''../c''"
  "Rel ''a/b/c'' ''a/c/d'' = Some ''../../c/d''"
  "Rel ''a/b/c/d/'' ''a/b'' = Some ''../..''"
  "Rel ''../../a/b'' ''../../a/b/c/d'' = Some ''c/d''"
  "Rel ''/a/b/c'' ''/a/c/d'' = Some ''../../c/d''"
  "Rel ''/'' ''/a'' = Some ''a''"
  "Rel ''.'' ''a/b'' = Some ''a/b''"
  "Rel ''.'' ''..'' = Some ''..''"
  "Rel ''example.com'' ''.'' = Some ''..''"
  "Rel ''../x'' ''../y'' = Some ''../y''"
  "Rel ''..'' ''.'' = None"
  "Rel ''..'' ''a'' = None"
  "Rel ''../..'' ''..'' = None"
  "Rel ''a'' ''/a'' = None"
  "Rel ''/a'' ''a'' = None"
  by (simp_all add: path_defs relLoop.simps)

subsection \<open>Lemmas on runs\<close>

lemma fold_download:
  "fold (\<lambda>u. download u dep) us s = s\<lparr>tasks := tasks s @ map (pendingTask dep) us\<rparr>"
  by (induction us arbitrary: s) (simp_all add: download_def pendingTask_def)

lemma cnt_append [simp]: "cnt P (xs @ ys) = cnt P xs + cnt P ys"
  by (simp add: cnt_def)

lemma cnt_none: "(\<And>x. x \<in> set xs \<Longrightarrow> \<not> P x) \<Longrightarrow> cnt P xs = 0"
  by (simp add: cnt_def)

lemma cnt_pos: "i < length xs \<Longrightarrow> P (xs ! i) \<Longrightarrow> 0 < cnt P xs"
  by (auto simp: cnt_def filter_empty_conv)

lemma cnt_split: "i < length xs \<Longrightarrow> cnt P xs = cntx P i xs + (if P (xs ! i) then 1 else 0)"
proof -
  assume "i < length xs"
  then have "xs = take i xs @ xs ! i # drop (Suc i) xs" by (rule id_take_nth_drop)
  then have "cnt P xs = cnt P (take i xs @ xs ! i # drop (Suc i) xs)" by simp
  then show ?thesis by (simp add: cntx_def cnt_def)
qed

lemma cnt_upd: "i < length xs \<Longrightarrow> cnt P (xs[i := x]) = cntx P i xs + (if P x then 1 else 0)"
  by (simp add: upd_conv_take_nth_drop cntx_def cnt_def)

lemma cntx_append: "i < length xs \<Longrightarrow> cntx P i (xs @ ys) = cntx P i xs + cnt P ys"
  by (simp add: cntx_def)

lemma cntx_zero: "cntx P i xs = 0 \<Longrightarrow> j < length xs \<Longrightarrow> j \<noteq> i \<Longrightarrow> \<not> P (xs ! j)"
proof
  assume z: "cntx P i xs = 0" and j: "j < length xs" "j \<noteq> i" and p: "P (xs ! j)"
  show False
  proof (cases "j < i")
    case True
    then have "take i xs ! j = xs ! j" "j < length (take i xs)" using j by simp_all
    with p have "0 < cnt P (take i xs)" using cnt_pos[of j "take i xs" P] by simp
    with z show False by (simp add: cntx_def)
  next
    case False
    with j have "i < j" by simp
    then obtain m where m: "j = Suc i + m" using less_iff_Suc_add by auto
    then have "drop (Suc i) xs ! m = xs ! j" "m < length (drop (Suc i) xs)" using j by simp_all
    with p have "0 < cnt P (drop (Suc i) xs)" using cnt_pos[of m "drop (Suc i) xs" P] by simp
    with z show False by (simp add: cntx_def)
  qed
qed

lemma cnt_pending: "\<not> P Pending \<Longrightarrow> cnt (\<lambda>t. P (tpc t) \<and> Q t) (map (pendingTask dep) us) = 0"
  by (rule cnt_none) (auto simp: pendingTask_def)

lemma cnt_pending1: "\<not> P Pending \<Longrightarrow> cnt (\<lambda>t. P (tpc t)) (map (pendingTask dep) us) = 0"
  by (rule cnt_none) (auto simp: pendingTask_def)

lemma inCS_simps [simp]:
  "\<not> inCS Pending" "inCS Locked" "inCS Unvisited" "\<not> inCS Claimed" "\<not> inCS Holding"
  "\<not> inCS InFlight" "\<not> inCS (Spawning pages)" "\<not> inCS Done"
  by (simp_all add: inCS_def)

lemma claimedPc_simps [simp]:
  "\<not> claimedPc Pending" "\<not> claimedPc Locked" "\<not> claimedPc Unvisited" "claimedPc Claimed"
  "claimedPc Holding" "\<not> claimedPc InFlight" "\<not> claimedPc (Spawning pages)" "\<not> claimedPc Done"
  by (simp_all add: claimedPc_def)

lemma holdsSlot_simps [simp]:
  "\<not> holdsSlot Pending" "\<not> holdsSlot Locked" "\<not> holdsSlot Unvisited" "\<not> holdsSlot Claimed"
  "holdsSlot Holding" "holdsSlot InFlight" "holdsSlot (Spawning pages)" "\<not> holdsSlot Done"
  by (simp_all add: holdsSlot_def)

lemma keyOf_tpc [simp]: "keyOf L (t\<lparr>tpc := p\<rparr>) = keyOf L t"
  by (simp add: keyOf_def)

lemma cnt_pending_claimed [simp]:
  "cnt (\<lambda>t. claimedPc (tpc t) \<and> keyOf L t = k) (map (pendingTask dep) us) = 0"
  by (rule cnt_none) (auto simp: pendingTask_def)

lemma at_split:
  "at s i p \<Longrightarrow> cnt P (tasks s) = cntx P i (tasks s) + (if P (tasks s ! i) then 1 else 0)"
  by (simp add: at_def cnt_split)

lemmas run_simps = at_def setpc_def release_def
  cnt_upd cntx_append cnt_pending cnt_pending1 nth_append nth_list_update

text \<open>The steps, one case for each way a step can go.\<close>

lemma step_elims [consumes 1, case_names StartSkip StartLock TestSeen TestNew Mark Acquire IssueGet
    Crash RespHTML RespEnd Finish]:
  assumes "step L d e s = Some s'"
  obtains
    (StartSkip) i where "at s i Pending" "tdepth (tasks s ! i) > maxDepth d" "s' = setpc i Done s"
  | (StartLock) i where "at s i Pending" "tdepth (tasks s ! i) \<le> maxDepth d" "\<not> locked s"
      "s' = setpc i Locked (s\<lparr>locked := True\<rparr>)"
  | (TestSeen) i where "at s i Locked" "visited s (keyOf L (tasks s ! i))"
      "s' = setpc i Done (s\<lparr>locked := False\<rparr>)"
  | (TestNew) i where "at s i Locked" "\<not> visited s (keyOf L (tasks s ! i))" "s' = setpc i Unvisited s"
  | (Mark) i where "at s i Unvisited"
      "s' = setpc i Claimed (s\<lparr>visited := (visited s)(keyOf L (tasks s ! i) := True), locked := False\<rparr>)"
  | (Acquire) i where "at s i Claimed" "int (sem s) < concurrencyLimit d"
      "s' = setpc i Holding (s\<lparr>sem := sem s + 1\<rparr>)"
  | (IssueGet) i where "at s i Holding"
      "s' = setpc i InFlight (s\<lparr>gets := gets s @ [(keyOf L (tasks s ! i), tdepth (tasks s ! i))]\<rparr>)"
  | (Crash) i where "at s i InFlight" "s' = s\<lparr>crashed := True\<rparr>"
  | (RespHTML) i resp err mk resources pages localPath doc where "at s i InFlight"
      "afterGet L d (turl (tasks s ! i)) resp err mk = SavedHTML resources pages localPath doc"
      "s' = setpc i (Spawning pages)
              (s\<lparr>tasks := tasks s @ map (pendingTask (tdepth (tasks s ! i))) resources\<rparr>)"
  | (RespEnd) i where "at s i InFlight" "s' = setpc i Done (release s)"
  | (Finish) i pages where "at s i (Spawning pages)"
      "s' = setpc i Done
              (release (s\<lparr>tasks := tasks s @ map (pendingTask (tdepth (tasks s ! i) + 1)) pages\<rparr>))"
proof (cases e)
  case (Start i)
  with assms StartSkip[of i] StartLock[of i] show ?thesis
    by (auto split: if_splits)
next
  case (Test i)
  with assms TestSeen[of i] TestNew[of i] show ?thesis
    by (auto simp: Let_def keyOf_def split: if_splits)
next
  case (Mark i)
  with assms that(5)[of i] show ?thesis
    by (auto simp: Let_def keyOf_def split: if_splits)
next
  case (Acquire i)
  with assms that(6)[of i] show ?thesis
    by (auto split: if_splits)
next
  case (IssueGet i)
  with assms that(7)[of i] show ?thesis
    by (auto simp: Let_def keyOf_def split: if_splits)
next
  case (Respond i resp err mk)
  show ?thesis
  proof (cases "afterGet L d (turl (tasks s ! i)) resp err mk")
    case Panic
    with assms Respond Crash[of i] show ?thesis by (auto simp: Let_def split: if_splits)
  next
    case (SavedHTML resources pages localPath doc)
    with assms Respond RespHTML[of i resp err mk resources pages localPath doc] show ?thesis
      by (auto simp: Let_def fold_download split: if_splits)
  next
    case TransportError
    with assms Respond RespEnd[of i] show ?thesis by (auto simp: Let_def split: if_splits)
  next
    case StatusError
    with assms Respond RespEnd[of i] show ?thesis by (auto simp: Let_def split: if_splits)
  next
    case MkdirError
    with assms Respond RespEnd[of i] show ?thesis by (auto simp: Let_def split: if_splits)
  next
    case (SavedNonHTML x1 x2)
    with assms Respond RespEnd[of i] show ?thesis by (auto simp: Let_def split: if_splits)
  next
    case ParseError
    with assms Respond RespEnd[of i] show ?thesis by (auto simp: Let_def split: if_splits)
  qed
next
  case (Finish i)
  with assms that(11)[of i] show ?thesis
    by (auto simp: fold_download at_def split: if_splits pc.splits)
qed

text \<open>The same cases, each with the count of the tasks split at the task that steps.\<close>

lemma step_cases [consumes 1, case_names StartSkip StartLock TestSeen TestNew Mark Acquire IssueGet
    Crash RespHTML RespEnd Finish]:
  assumes "step L d e s = Some s'"
  obtains
    (StartSkip) i where "at s i Pending" "tdepth (tasks s ! i) > maxDepth d" "s' = setpc i Done s"
      "\<And>P. cnt P (tasks s) = cntx P i (tasks s) + (if P (tasks s ! i) then 1 else 0)"
  | (StartLock) i where "at s i Pending" "tdepth (tasks s ! i) \<le> maxDepth d" "\<not> locked s"
      "s' = setpc i Locked (s\<lparr>locked := True\<rparr>)"
      "\<And>P. cnt P (tasks s) = cntx P i (tasks s) + (if P (tasks s ! i) then 1 else 0)"
  | (TestSeen) i where "at s i Locked" "visited s (keyOf L (tasks s ! i))"
      "s' = setpc i Done (s\<lparr>locked := False\<rparr>)"
      "\<And>P. cnt P (tasks s) = cntx P i (tasks s) + (if P (tasks s ! i) then 1 else 0)"
  | (TestNew) i where "at s i Locked" "\<not> visited s (keyOf L (tasks s ! i))" "s' = setpc i Unvisited s"
      "\<And>P. cnt P (tasks s) = cntx P i (tasks s) + (if P (tasks s ! i) then 1 else 0)"
  | (Mark) i where "at s i Unvisited"
      "s' = setpc i Claimed (s\<lparr>visited := (visited s)(keyOf L (tasks s ! i) := True), locked := False\<rparr>)"
      "\<And>P. cnt P (tasks s) = cntx P i (tasks s) + (if P (tasks s ! i) then 1 else 0)"
  | (Acquire) i where "at s i Claimed" "int (sem s) < concurrencyLimit d"
      "s' = setpc i Holding (s\<lparr>sem := sem s + 1\<rparr>)"
      "\<And>P. cnt P (tasks s) = cntx P i (tasks s) + (if P (tasks s ! i) then 1 else 0)"
  | (IssueGet) i where "at s i Holding"
      "s' = setpc i InFlight (s\<lparr>gets := gets s @ [(keyOf L (tasks s ! i), tdepth (tasks s ! i))]\<rparr>)"
      "\<And>P. cnt P (tasks s) = cntx P i (tasks s) + (if P (tasks s ! i) then 1 else 0)"
  | (Crash) i where "at s i InFlight" "s' = s\<lparr>crashed := True\<rparr>"
  | (RespHTML) i resp err mk resources pages localPath doc where "at s i InFlight"
      "afterGet L d (turl (tasks s ! i)) resp err mk = SavedHTML resources pages localPath doc"
      "s' = setpc i (Spawning pages)
              (s\<lparr>tasks := tasks s @ map (pendingTask (tdepth (tasks s ! i))) resources\<rparr>)"
      "\<And>P. cnt P (tasks s) = cntx P i (tasks s) + (if P (tasks s ! i) then 1 else 0)"
  | (RespEnd) i where "at s i InFlight" "s' = setpc i Done (release s)"
      "\<And>P. cnt P (tasks s) = cntx P i (tasks s) + (if P (tasks s ! i) then 1 else 0)"
  | (Finish) i pages where "at s i (Spawning pages)"
      "s' = setpc i Done
              (release (s\<lparr>tasks := tasks s @ map (pendingTask (tdepth (tasks s ! i) + 1)) pages\<rparr>))"
      "\<And>P. cnt P (tasks s) = cntx P i (tasks s) + (if P (tasks s ! i) then 1 else 0)"
  using assms
proof (cases rule: step_elims)
  case (StartSkip i) then show ?thesis using that(1)[of i] at_split[of s i Pending] by blast
next
  case (StartLock i) then show ?thesis using that(2)[of i] at_split[of s i Pending] by blast
next
  case (TestSeen i) then show ?thesis using that(3)[of i] at_split[of s i Locked] by blast
next
  case (TestNew i) then show ?thesis using that(4)[of i] at_split[of s i Locked] by blast
next
  case (Mark i) then show ?thesis using that(5)[of i] at_split[of s i Unvisited] by blast
next
  case (Acquire i) then show ?thesis using that(6)[of i] at_split[of s i Claimed] by blast
next
  case (IssueGet i) then show ?thesis using that(7)[of i] at_split[of s i Holding] by blast
next
  case (Crash i) then show ?thesis using that(8)[of i] by blast
next
  case (RespHTML i resp err mk resources pages localPath doc)
  then show ?thesis
    using that(9)[of i resp err mk resources pages localPath doc] at_split[of s i InFlight] by blast
next
  case (RespEnd i) then show ?thesis using that(10)[of i] at_split[of s i InFlight] by blast
next
  case (Finish i pages)
  then show ?thesis using that(11)[of i pages] at_split[of s i "Spawning pages"] by blast
qed

lemma invCS_step:
  assumes "step L d e s = Some s'" "invCS s"
  shows "invCS s'"
  using assms
  by (cases rule: step_cases) (auto simp: invCS_def run_simps split: if_splits)

lemma invSem_step:
  assumes "step L d e s = Some s'" "invSem d s"
  shows "invSem d s'"
  using assms
  by (cases rule: step_cases) (auto simp: invSem_def run_simps split: if_splits)

lemma invUnv_step:
  assumes "step L d e s = Some s'" "invUnv L s" "invCS s"
  shows "invUnv L s'"
  using assms
proof (cases rule: step_cases)
  case (Mark i)
  from Mark(1,3) assms(3) have "cntx (\<lambda>t. inCS (tpc t)) i (tasks s) = 0"
    by (auto simp: invCS_def at_def split: if_splits)
  then have "\<And>j. j < length (tasks s) \<Longrightarrow> j \<noteq> i \<Longrightarrow> tpc (tasks s ! j) \<noteq> Unvisited"
    using cntx_zero[of "\<lambda>t. inCS (tpc t)" i "tasks s"] by fastforce
  with Mark assms(2) show ?thesis
    by (auto simp: invUnv_def run_simps)
qed (auto simp: invUnv_def run_simps pendingTask_def split: if_splits)

lemma invKey_step:
  assumes "step L d e s = Some s'" "invKey L s k" "invUnv L s"
  shows "invKey L s' k"
  using assms
  by (cases rule: step_cases) (auto simp: invKey_def invUnv_def run_simps split: if_splits)

lemma invDepth_step:
  assumes "step L d e s = Some s'" "invDepth d s"
  shows "invDepth d s'"
  using assms
  by (cases rule: step_cases) (auto simp: invDepth_def run_simps pendingTask_def split: if_splits)

lemma invRoot_step:
  assumes "step L d e s = Some s'" "invRoot L base s" "0 \<le> maxDepth d"
  shows "invRoot L base s'"
  using assms
  by (cases rule: step_cases)
     (auto simp: invRoot_def run_simps pendingTask_def keyOf_def split: if_splits)

lemma afterGet_SavedHTML:
  assumes "afterGet L d u resp err mk = SavedHTML resources pages localPath doc"
  shows "\<exists>doc0. collectLinks L d doc0 u = (resources, pages)"
  using assms
  by (auto simp: afterGet_def Let_def split: option.splits if_splits prod.splits)

lemma invFrag_step:
  assumes "step L d e s = Some s'" "invFrag s"
  shows "invFrag s'"
  using assms
proof (cases rule: step_elims)
  case (RespHTML i resp err mk resources pages localPath doc)
  from afterGet_SavedHTML[OF RespHTML(2)] obtain doc0
    where c: "collectLinks L d doc0 (turl (tasks s ! i)) = (resources, pages)" by blast
  have f: "Fragment u = []" if "u \<in> set resources \<union> set pages" for u
    using collectLinks_member_kept[OF c that] by simp
  with RespHTML assms(2) show ?thesis
    by (auto simp: invFrag_def run_simps pendingTask_def split: if_splits)
qed (auto simp: invFrag_def run_simps pendingTask_def split: if_splits)

lemma invFirst_step:
  assumes "step L d e s = Some s'" "invFirst base s"
  shows "invFirst base s'"
  using assms
  by (cases rule: step_cases)
     (auto simp: invFirst_def run_simps pendingTask_def nth_append split: if_splits)

lemma invGets_step:
  assumes "step L d e s = Some s'" "invGets L s"
  shows "invGets L s'"
  using assms
  by (cases rule: step_cases)
     (auto simp: invGets_def run_simps pendingTask_def keyOf_def nth_append nth_list_update
           split: if_splits)

lemma execute_invariant:
  assumes "execute L d evs s0 = Some s" "P s0"
    and "\<And>e s s'. step L d e s = Some s' \<Longrightarrow> P s \<Longrightarrow> P s'"
  shows "P s"
  using assms(1,2)
proof (induction evs arbitrary: s0)
  case Nil
  then show ?case by simp
next
  case (Cons e es)
  from Cons.prems(1) obtain s1 where s1: "step L d e s0 = Some s1" "execute L d es s1 = Some s"
    by (auto split: option.splits)
  from assms(3)[OF s1(1) Cons.prems(2)] have "P s1" .
  with Cons.IH s1(2) show ?case by blast
qed

lemma start_dedup:
  "invCS (start base) \<and> invUnv L (start base) \<and> (\<forall>k. invKey L (start base) k)"
  by (simp add: invCS_def invUnv_def invKey_def start_def download_def cnt_def)

lemma run_dedup:
  assumes "execute L d evs (start base) = Some s"
  shows "invCS s \<and> invUnv L s \<and> (\<forall>k. invKey L s k)"
  using assms start_dedup[of base L]
proof (rule execute_invariant)
  fix e s s'
  assume "step L d e s = Some s'" "invCS s \<and> invUnv L s \<and> (\<forall>k. invKey L s k)"
  then show "invCS s' \<and> invUnv L s' \<and> (\<forall>k. invKey L s' k)"
    using invCS_step invUnv_step invKey_step by blast
qed

lemma run_depth:
  assumes "execute L d evs (start base) = Some s"
  shows "invDepth d s"
  using assms
proof (rule execute_invariant)
  show "invDepth d (start base)"
    by (simp add: invDepth_def start_def download_def)
qed (rule invDepth_step)

lemma run_root:
  assumes "execute L d evs (start base) = Some s" "0 \<le> maxDepth d"
  shows "invRoot L base s"
  using assms(1)
proof (rule execute_invariant)
  show "invRoot L base (start base)"
    by (simp add: invRoot_def start_def download_def)
next
  fix e s s'
  assume "step L d e s = Some s'" "invRoot L base s"
  then show "invRoot L base s'" using assms(2) by (rule invRoot_step)
qed

lemma run_frag:
  assumes "execute L d evs (start base) = Some s"
  shows "invFrag s"
  using assms
proof (rule execute_invariant)
  show "invFrag (start base)"
    by (simp add: invFrag_def start_def download_def)
qed (rule invFrag_step)

lemma run_first:
  assumes "execute L d evs (start base) = Some s"
  shows "invFirst base s"
  using assms
proof (rule execute_invariant)
  show "invFirst base (start base)"
    by (simp add: invFirst_def start_def download_def)
qed (rule invFirst_step)

lemma run_gets:
  assumes "execute L d evs (start base) = Some s"
  shows "invGets L s"
  using assms
proof (rule execute_invariant)
  show "invGets L (start base)"
    by (simp add: invGets_def start_def download_def)
qed (rule invGets_step)

lemma run_sem:
  assumes "execute L d evs (start base) = Some s" "0 \<le> concurrencyLimit d"
  shows "invSem d s"
  using assms(1)
proof (rule execute_invariant)
  show "invSem d (start base)"
    using assms(2) by (simp add: invSem_def start_def download_def cnt_def)
qed (rule invSem_step)

text \<open>The example run, evaluated.\<close>

lemmas example_defs = exampleRun_def exampleExpand_def exampleFetch_def exampleLib_def exampleD_def
  exampleD0_def exampleBase_def exampleDoc_def exampleResolve_def exampleString_def indexResp_def
  pngResp_def notFoundResp_def

lemmas eval_defs = summary_def start_def download_def at_def setpc_def release_def afterGet_def
  makeLocalPath_def collectLinks_def collectVisit_def collectTag_def Let_def

lemma exampleRun_result:
  "map_option summary (execute exampleLib exampleD exampleRun (start exampleBase)) =
     Some (0, False, False,
       [(''https://example.com/'', 0), (''https://example.com/logo.png'', 0),
        (''https://example.com/about'', 1)],
       [(''https://example.com/'', 0, Done),
        (''https://example.com/logo.png'', 0, Done),
        (''https://example.com/about'', 1, Done),
        (''https://example.com/'', 1, Done)])"
  by (simp add: example_defs eval_defs)

lemma exampleFetch_result:
  "map_option summary (execute exampleLib exampleD exampleFetch (start exampleBase)) =
     Some (1, False, False, [(''https://example.com/'', 0)], [(''https://example.com/'', 0, InFlight)])"
  by (simp add: example_defs eval_defs)

lemma exampleExpand_result:
  "map_option summary (execute exampleLib exampleD0 exampleExpand (start exampleBase)) =
     Some (0, False, False, [(''https://example.com/'', 0)],
       [(''https://example.com/'', 0, Done),
        (''https://example.com/logo.png'', 0, Pending),
        (''https://example.com/about'', 1, Pending),
        (''https://example.com/'', 1, Pending)])"
  by (simp add: example_defs eval_defs)

lemma topRun_result:
  "map_option summary (execute topLib exampleD topRun (start topBase)) =
     Some (1, False, False,
       [(''https://example.com/#top'', 0), (''https://example.com/'', 1)],
       [(''https://example.com/#top'', 0, Done),
        (''https://example.com/logo.png'', 0, Pending),
        (''https://example.com/about'', 1, Pending),
        (''https://example.com/'', 1, InFlight)])"
  by (simp add: topRun_def topLib_def topBase_def example_defs eval_defs)

lemma length_filter_mono:
  "(\<And>x. x \<in> set xs \<Longrightarrow> P x \<Longrightarrow> Q x) \<Longrightarrow> length (filter P xs) \<le> length (filter Q xs)"
  by (induction xs) auto

lemma linksOf_length:
  "length (linksOf L d base ns) \<le> length (filter (\<lambda>n. Type n = ElementNode) ns)"
proof -
  have "length (linksOf L d base ns) = length (filter (\<lambda>n. nodeLink L d base n \<noteq> None) ns)"
    by (simp add: linksOf_def map_filter_def)
  also have "\<dots> \<le> length (filter (\<lambda>n. Type n = ElementNode) ns)"
    by (rule length_filter_mono) (auto simp: nodeLink_def split: if_splits)
  finally show ?thesis .
qed

subsection \<open>A failed request\<close>

text \<open>
  Claim C1: a task whose GET ends in a transport failure ends cleanly, and the run goes on.

  The program does not do this when the failure leaves no response. \<open>Get\<close> then returns
  \<open>nil\<close> with the error, line 121 reads \<open>resp.Status\<close> before line 122 tests \<open>err\<close>, and the
  read of a field of \<open>nil\<close> panics; no goroutine recovers, so the process ends. The theorem
  evaluates the task at that input, alone and as the first task of a run.
\<close>

theorem transport_failure_panics:
  "afterGet L d u None True mkdirFails = Panic
   \<and> step L d (Respond 0 None True mkdirFails) (setpc 0 InFlight (start u))
       = Some ((setpc 0 InFlight (start u))\<lparr>crashed := True\<rparr>)"
  by (simp add: afterGet_def at_def setpc_def start_def download_def)

subsection \<open>The links \<open>collectLinks\<close> returns\<close>

text \<open>
  Claim C7: every URL \<open>collectLinks\<close> returns, resource or page, has the host of the mirror,
  the scheme \<open>http\<close> or \<open>https\<close> (the base's scheme when it had none) and no fragment; each
  element contributes at most one link, from its first matching \<open>href\<close> or \<open>src\<close> attribute.

  The resources and the pages are the links of the nodes in document order, where the
  link of a node (\<open>nodeLink\<close>) is what its first attribute with the tag's key that yields
  a URL yields (\<open>candidate\<close>): so there are no more links than element nodes.
\<close>

theorem collectLinks_kept_links:
  assumes "collectLinks L d doc base = (resources, pages)"
  shows "resources = map snd (filter (\<lambda>l. \<not> fst l) (linksOf L d base (preorder doc)))
       \<and> pages = map snd (filter fst (linksOf L d base (preorder doc)))
       \<and> (\<forall>u \<in> set resources \<union> set pages.
             Host u = host d \<and> (Scheme u = ''http'' \<or> Scheme u = ''https'') \<and> Fragment u = [])
       \<and> length resources + length pages
             \<le> length (filter (\<lambda>n. Type n = ElementNode) (preorder doc))"
proof -
  from assms have r: "resources = map snd (filter (\<lambda>l. \<not> fst l) (linksOf L d base (preorder doc)))"
    and p: "pages = map snd (filter fst (linksOf L d base (preorder doc)))"
    by (simp_all add: collectLinks_linksOf)
  have k: "\<forall>u \<in> set resources \<union> set pages.
             Host u = host d \<and> (Scheme u = ''http'' \<or> Scheme u = ''https'') \<and> Fragment u = []"
    using collectLinks_member_kept[OF assms] by blast
  have "length resources + length pages = length (linksOf L d base (preorder doc))"
    unfolding r p using sum_length_filter_compl[of fst "linksOf L d base (preorder doc)"] by simp
  then have n: "length resources + length pages
                  \<le> length (filter (\<lambda>n. Type n = ElementNode) (preorder doc))"
    using linksOf_length[of L d base "preorder doc"] by simp
  from r p k n show ?thesis by blast
qed

theorem collectLinks_kept_links_witness:
  "collectLinks exampleLib exampleD exampleDoc exampleBase
     = ([exampleBase\<lparr>Path := ''/logo.png''\<rparr>], [exampleBase\<lparr>Path := ''/about''\<rparr>, exampleBase])
   \<and> Fragment (exampleBase\<lparr>Path := ''/about''\<rparr>) = []
   \<and> length (filter (\<lambda>n. Type n = ElementNode) (preorder exampleDoc)) = 6"
proof -
  have h: "collectLinks exampleLib exampleD exampleDoc exampleBase
     = ([exampleBase\<lparr>Path := ''/logo.png''\<rparr>], [exampleBase\<lparr>Path := ''/about''\<rparr>, exampleBase])"
    by (simp add: example_defs eval_defs)
  from collectLinks_kept_links[OF h] have "Fragment (exampleBase\<lparr>Path := ''/about''\<rparr>) = []"
    by simp
  moreover have "length (filter (\<lambda>n. Type n = ElementNode) (preorder exampleDoc)) = 6"
    by (simp add: exampleDoc_def)
  ultimately show ?thesis using h by simp
qed

subsection \<open>What \<open>rewriteLinks\<close> leaves alone\<close>

text \<open>
  Claim C8: an attribute whose value does not resolve against the base, or resolves to
  another host, is the same after \<open>rewriteLinks\<close> as before.

  The document keeps its nodes, every node its number of attributes, and such an
  attribute, whatever its key and its element, its key and value.
\<close>

theorem rewriteLinks_off_host_untouched:
  assumes "i < length (preorder doc)" "j < length (Attr (preorder doc ! i))"
    and "\<not> sameHost L d base (Val (Attr (preorder doc ! i) ! j))"
  shows "length (preorder (rewriteLinks L d doc base cur)) = length (preorder doc)
       \<and> length (Attr (preorder (rewriteLinks L d doc base cur) ! i)) = length (Attr (preorder doc ! i))
       \<and> Attr (preorder (rewriteLinks L d doc base cur) ! i) ! j = Attr (preorder doc ! i) ! j"
proof -
  have "rewriteVisit L d base cur (preorder doc ! i) ! j = Attr (preorder doc ! i) ! j"
    using assms(2,3)
    by (auto simp: rewriteVisit_def relTo_sameHost rewriteAttrs_other split: option.splits)
  with rewriteLinks_attr[OF assms(1), of L d base cur] show ?thesis by simp
qed

theorem rewriteLinks_off_host_untouched_witness:
  "6 < length (preorder exampleDoc)
   \<and> Attr (preorder exampleDoc ! 6) = [\<lparr>Key = ''href'', Val = ''https://other.org/x''\<rparr>]
   \<and> \<not> sameHost exampleLib exampleD exampleBase ''https://other.org/x''
   \<and> Attr (preorder (rewriteLinks exampleLib exampleD exampleDoc exampleBase ''example.com/index.html'') ! 6) ! 0
       = \<lparr>Key = ''href'', Val = ''https://other.org/x''\<rparr>"
proof -
  have a: "6 < length (preorder exampleDoc)"
    and b: "Attr (preorder exampleDoc ! 6) = [\<lparr>Key = ''href'', Val = ''https://other.org/x''\<rparr>]"
    by (simp_all add: exampleDoc_def)
  have c: "\<not> sameHost exampleLib exampleD exampleBase ''https://other.org/x''"
    by (simp add: sameHost_def example_defs)
  from rewriteLinks_off_host_untouched[of 6 exampleDoc 0 exampleLib exampleD exampleBase
      "''example.com/index.html''"] a b c
  show ?thesis by simp
qed

subsection \<open>One request for each URL\<close>




subsection \<open>Tasks beyond the maximum depth\<close>

text \<open>
  Claim C3 says that a task for a page link is started only when its depth is within
  \<open>maxDepth\<close>. It is not so: line 181 passes every page to \<open>download\<close>, which starts the
  goroutine, and the depth is tested inside it, on line 100. With \<open>-d 0\<close> the page of the
  example starts two tasks of depth 1.
\<close>

theorem page_task_started_beyond_max_depth:
  "maxDepth exampleD0 = 0
   \<and> map_option (\<lambda>s. map (\<lambda>t. (exampleString (turl t), tdepth t, tpc t)) (tasks s))
        (execute exampleLib exampleD0 exampleExpand (start exampleBase))
     = Some [(''https://example.com/'', 0, Done),
             (''https://example.com/logo.png'', 0, Pending),
             (''https://example.com/about'', 1, Pending),
             (''https://example.com/'', 1, Pending)]"
  using exampleExpand_result
  by (auto simp: summary_def exampleD0_def)

text \<open>
  Claim C3, amended: every page link found starts a task at depth + 1, whatever the
  maximum depth; a task whose depth exceeds it returns at its first statement. So in
  every state of a run, a task that is past its first statement and has not returned
  has a depth within \<open>maxDepth\<close>, and so has every request sent.
\<close>

theorem beyond_max_depth_returns:
  assumes "execute L d evs (start base) = Some s"
  shows "(\<forall>t \<in> set (tasks s). tpc t \<noteq> Pending \<and> tpc t \<noteq> Done \<longrightarrow> tdepth t \<le> maxDepth d)
       \<and> (\<forall>g \<in> set (gets s). snd g \<le> maxDepth d)
       \<and> (\<forall>i. at s i Pending \<and> maxDepth d < tdepth (tasks s ! i) \<longrightarrow>
             step L d (Start i) s = Some (setpc i Done s))
       \<and> (\<forall>i pages. at s i (Spawning pages) \<longrightarrow>
             step L d (Finish i) s
               = Some (setpc i Done
                         (release (fold (\<lambda>page. download page (tdepth (tasks s ! i) + 1)) pages s))))"
proof -
  from run_depth[OF assms] have dp: "invDepth d s" .
  have a: "\<forall>t \<in> set (tasks s). tpc t \<noteq> Pending \<and> tpc t \<noteq> Done \<longrightarrow> tdepth t \<le> maxDepth d"
    using dp by (auto simp: invDepth_def in_set_conv_nth)
  have b: "\<forall>g \<in> set (gets s). snd g \<le> maxDepth d"
    using dp by (simp add: invDepth_def)
  have c: "\<forall>i. at s i Pending \<and> maxDepth d < tdepth (tasks s ! i) \<longrightarrow>
             step L d (Start i) s = Some (setpc i Done s)"
    by simp
  have e: "\<forall>i pages. at s i (Spawning pages) \<longrightarrow>
             step L d (Finish i) s
               = Some (setpc i Done
                         (release (fold (\<lambda>page. download page (tdepth (tasks s ! i) + 1)) pages s)))"
    by (simp add: at_def)
  from a b c e show ?thesis by blast
qed

theorem beyond_max_depth_returns_witness:
  "\<exists>s. execute exampleLib exampleD0 exampleExpand (start exampleBase) = Some s
      \<and> at s 2 Pending \<and> maxDepth exampleD0 < tdepth (tasks s ! 2)
      \<and> step exampleLib exampleD0 (Start 2) s = Some (setpc 2 Done s)
      \<and> map snd (gets s) = [0]"
proof -
  from exampleExpand_result obtain s
    where ex: "execute exampleLib exampleD0 exampleExpand (start exampleBase) = Some s"
      and sm: "summary s = (0, False, False, [(''https://example.com/'', 0)],
       [(''https://example.com/'', 0, Done),
        (''https://example.com/logo.png'', 0, Pending),
        (''https://example.com/about'', 1, Pending),
        (''https://example.com/'', 1, Pending)])"
    by auto
  from sm have g: "map snd (gets s) = [0]" and c: "\<not> crashed s"
    and t: "map (\<lambda>t. (tdepth t, tpc t)) (tasks s) = [(0, Done), (0, Pending), (1, Pending), (1, Pending)]"
    by (simp_all add: summary_def map_eq_Cons_conv) auto
  from t have l: "length (tasks s) = 4" using length_map[of "\<lambda>t. (tdepth t, tpc t)" "tasks s"] by simp
  from t l have n: "(tdepth (tasks s ! 2), tpc (tasks s ! 2)) = (1, Pending)"
    using nth_map[of 2 "tasks s" "\<lambda>t. (tdepth t, tpc t)"] by simp
  from n c l have p: "at s 2 Pending" and dp: "maxDepth exampleD0 < tdepth (tasks s ! 2)"
    by (simp_all add: at_def exampleD0_def)
  from beyond_max_depth_returns[OF ex] p dp
  have "step exampleLib exampleD0 (Start 2) s = Some (setpc 2 Done s)" by blast
  with ex p dp g
  have "execute exampleLib exampleD0 exampleExpand (start exampleBase) = Some s
      \<and> at s 2 Pending \<and> maxDepth exampleD0 < tdepth (tasks s ! 2)
      \<and> step exampleLib exampleD0 (Start 2) s = Some (setpc 2 Done s)
      \<and> map snd (gets s) = [0]"
    by (intro conjI)
  then show ?thesis by (rule exI)
qed

subsection \<open>Requests in flight\<close>

text \<open>
  Claim C9: with the limit \<open>N\<close> of the command line, no more than \<open>N\<close> requests are in flight
  at any moment: a task sends on the channel of capacity \<open>N\<close> before its GET and receives
  from it when it returns.

  In every state of a run that \<open>main\<close> starts, under any interleaving: the tasks inside
  \<open>Get\<close> are no more than \<open>N\<close>; the tasks between their send and their receive are as many
  as the channel holds values, and those are no more than \<open>N\<close>. (A negative \<open>N\<close> starts no
  run: \<open>new\<close> panics.)
\<close>

theorem fetches_in_flight_bounded:
  assumes "main L startURL maxDepth0 conLimit mkdirFails = Some (d, base, s0)"
    and "execute L d evs s0 = Some s"
  shows "int (length (filter (\<lambda>t. tpc t = InFlight) (tasks s))) \<le> conLimit
       \<and> length (filter (\<lambda>t. holdsSlot (tpc t)) (tasks s)) = sem s
       \<and> int (sem s) \<le> conLimit"
proof -
  from assms(1) have s0: "s0 = start base" and lim: "concurrencyLimit d = conLimit" "0 \<le> conLimit"
    by (auto simp: main_def new_def Let_def split: if_splits option.splits)
  from assms(2) s0 lim have sem: "invSem d s" by (intro run_sem[of L d evs base]) simp_all
  have "length (filter (\<lambda>t. tpc t = InFlight) (tasks s)) \<le> length (filter (\<lambda>t. holdsSlot (tpc t)) (tasks s))"
    by (rule length_filter_mono) simp
  with sem lim show ?thesis by (simp add: invSem_def cnt_def)
qed

theorem fetches_in_flight_bounded_witness:
  "main exampleLib ''https://example.com/'' 1 2 False = Some (exampleD, exampleBase, start exampleBase)
   \<and> (\<exists>s. execute exampleLib exampleD exampleFetch (start exampleBase) = Some s
          \<and> length (filter (\<lambda>t. tpc t = InFlight) (tasks s)) = 1 \<and> sem s = 1)"
proof -
  have m: "main exampleLib ''https://example.com/'' 1 2 False
             = Some (exampleD, exampleBase, start exampleBase)"
    by (simp add: main_def new_def example_defs Let_def)
  from exampleFetch_result obtain s
    where ex: "execute exampleLib exampleD exampleFetch (start exampleBase) = Some s"
      and sm: "summary s = (1, False, False, [(''https://example.com/'', 0)],
                 [(''https://example.com/'', 0, InFlight)])"
    by auto
  from sm have "sem s = 1" "map tpc (tasks s) = [InFlight]"
    by (simp_all add: summary_def map_eq_Cons_conv) auto
  then have "sem s = 1" "length (filter (\<lambda>t. tpc t = InFlight) (tasks s)) = 1"
    by (auto simp: map_eq_Cons_conv)
  with fetches_in_flight_bounded[OF m ex] m ex show ?thesis by blast
qed

subsection \<open>The local path of a URL\<close>




subsection \<open>Local paths of different URLs\<close>

text \<open>
  Claim C6 says that two different URLs of the mirrored host have different local paths,
  index files apart. It is not so: \<open>makeLocalPath\<close> reads \<open>u.Path\<close> and nothing else of the
  URL. Two URLs that differ in their query have the same local path; here neither is
  directory-like, and no \<open>index.html\<close> is involved.
\<close>

theorem different_queries_same_local_path:
  "exampleBase\<lparr>Path := ''/style.css'', RawQuery := ''v=1''\<rparr>
     \<noteq> exampleBase\<lparr>Path := ''/style.css'', RawQuery := ''v=2''\<rparr>
   \<and> Host (exampleBase\<lparr>Path := ''/style.css'', RawQuery := ''v=1''\<rparr>) = host exampleD
   \<and> Host (exampleBase\<lparr>Path := ''/style.css'', RawQuery := ''v=2''\<rparr>) = host exampleD
   \<and> makeLocalPath exampleD (exampleBase\<lparr>Path := ''/style.css'', RawQuery := ''v=1''\<rparr>)
       = ''example.com/style.css''
   \<and> makeLocalPath exampleD (exampleBase\<lparr>Path := ''/style.css'', RawQuery := ''v=2''\<rparr>)
       = ''example.com/style.css''"
  by (simp add: exampleBase_def exampleD_def path_defs)

text \<open>
  Claim C6, amended: the local path of a URL depends on its path alone, not on its
  scheme, query or fragment. Two URLs with rooted paths that clean to different paths have
  different local paths when \<open>index.html\<close> is appended for both or for neither: a file
  shared by two such URLs is the index file of one of them.
\<close>

theorem makeLocalPath_distinct:
  "(isRooted (Path u1) \<and> isRooted (Path u2) \<and> Clean (Path u1) \<noteq> Clean (Path u2)
      \<and> appendsIndex d u1 = appendsIndex d u2 \<longrightarrow> makeLocalPath d u1 \<noteq> makeLocalPath d u2)
   \<and> makeLocalPath d (u\<lparr>Scheme := s, RawQuery := q, Fragment := f\<rparr>) = makeLocalPath d u"
proof (intro conjI impI)
  assume a: "isRooted (Path u1) \<and> isRooted (Path u2) \<and> Clean (Path u1) \<noteq> Clean (Path u2)
      \<and> appendsIndex d u1 = appendsIndex d u2"
  define J1 where "J1 = Join [rootDir d, Clean (Path u1)]"
  define J2 where "J2 = Join [rootDir d, Clean (Path u2)]"
  have ne: "J1 \<noteq> []" "J2 \<noteq> []" by (simp_all add: J1_def J2_def)
  have s1: "stackOf J1 = stackOf (Path u1) @ (if rootDir d = [] then [] else stackOf (rootDir d))"
    unfolding J1_def using a by (intro stackOf_Join_rooted) simp
  have s2: "stackOf J2 = stackOf (Path u2) @ (if rootDir d = [] then [] else stackOf (rootDir d))"
    unfolding J2_def using a by (intro stackOf_Join_rooted) simp
  have diff: "stackOf J1 \<noteq> stackOf J2"
  proof
    assume "stackOf J1 = stackOf J2"
    with s1 s2 have "stackOf (Path u1) = stackOf (Path u2)" by simp
    with a have "Clean (Path u1) = Clean (Path u2)" by (intro Clean_rooted_stack) simp_all
    with a show False by simp
  qed
  show "makeLocalPath d u1 \<noteq> makeLocalPath d u2"
  proof (cases "appendsIndex d u1")
    case True
    with a have t2: "appendsIndex d u2" by simp
    have i1: "stackOf (Join [J1, ''index.html'']) = ''index.html'' # stackOf J1"
      using ne(1) by (rule stackOf_Join_index)
    have i2: "stackOf (Join [J2, ''index.html'']) = ''index.html'' # stackOf J2"
      using ne(2) by (rule stackOf_Join_index)
    have "Join [J1, ''index.html''] \<noteq> Join [J2, ''index.html'']"
    proof
      assume "Join [J1, ''index.html''] = Join [J2, ''index.html'']"
      then have "stackOf (Join [J1, ''index.html'']) = stackOf (Join [J2, ''index.html''])"
        by (rule arg_cong)
      then have "''index.html'' # stackOf J1 = ''index.html'' # stackOf J2"
        by (simp only: i1 i2)
      with diff show False by simp
    qed
    with True t2 show ?thesis by (simp add: makeLocalPath_appendsIndex J1_def J2_def)
  next
    case False
    with a have f2: "\<not> appendsIndex d u2" by simp
    from diff have "J1 \<noteq> J2" by auto
    with False f2 show ?thesis by (simp add: makeLocalPath_appendsIndex J1_def J2_def)
  qed
next
  show "makeLocalPath d (u\<lparr>Scheme := s, RawQuery := q, Fragment := f\<rparr>) = makeLocalPath d u"
    by (simp add: makeLocalPath_def)
qed

theorem makeLocalPath_distinct_witness:
  "isRooted ''/a.css'' \<and> isRooted ''/b/a.css'' \<and> Clean ''/a.css'' \<noteq> Clean ''/b/a.css''
   \<and> \<not> appendsIndex exampleD (exampleBase\<lparr>Path := ''/a.css''\<rparr>)
   \<and> \<not> appendsIndex exampleD (exampleBase\<lparr>Path := ''/b/a.css''\<rparr>)
   \<and> makeLocalPath exampleD (exampleBase\<lparr>Path := ''/a.css''\<rparr>)
       \<noteq> makeLocalPath exampleD (exampleBase\<lparr>Path := ''/b/a.css''\<rparr>)"
proof -
  have a: "isRooted ''/a.css''" "isRooted ''/b/a.css''" "Clean ''/a.css'' \<noteq> Clean ''/b/a.css''"
    by (simp_all add: path_defs)
  have b: "\<not> appendsIndex exampleD (exampleBase\<lparr>Path := ''/a.css''\<rparr>)"
    "\<not> appendsIndex exampleD (exampleBase\<lparr>Path := ''/b/a.css''\<rparr>)"
    by (simp_all add: appendsIndex_def exampleD_def exampleBase_def path_defs)
  from makeLocalPath_distinct[of "exampleBase\<lparr>Path := ''/a.css''\<rparr>"
      "exampleBase\<lparr>Path := ''/b/a.css''\<rparr>" exampleD] a b
  have "makeLocalPath exampleD (exampleBase\<lparr>Path := ''/a.css''\<rparr>)
       \<noteq> makeLocalPath exampleD (exampleBase\<lparr>Path := ''/b/a.css''\<rparr>)"
    by simp
  with a b show ?thesis by blast
qed

subsection \<open>Fragments in rewritten links\<close>

text \<open>
  Claim C10 says that every link attribute that resolves to a URL of the mirrored host
  with a fragment is replaced by the bare relative path of the file. It is not so for
  every such attribute: the loop of \<open>rewriteLinks\<close> leaves the element at its first
  rewrite (\<open>break\<close>, line 319), so a second \<open>href\<close> of the same element keeps its value,
  fragment included.
\<close>

theorem second_anchor_keeps_fragment:
  "sameHost exampleLib exampleD exampleBase ''/y#b''
   \<and> map_option Fragment (URL_Parse exampleLib exampleBase ''/y#b'') = Some ''b''
   \<and> Attr (rewriteLinks exampleLib exampleD twoAnchors exampleBase ''example.com/index.html'')
       = [\<lparr>Key = ''href'', Val = ''x/index.html''\<rparr>, \<lparr>Key = ''href'', Val = ''/y#b''\<rparr>]"
  by (simp add: sameHost_def rewriteLinks_def rewriteVisit_def rewriteTag_def twoAnchors_def
        exampleLib_def exampleResolve_def exampleD_def exampleBase_def path_defs relLoop.simps)

text \<open>
  Claim C10, amended: in an element \<open>a\<close>, \<open>link\<close>, \<open>script\<close> or \<open>img\<close>, the first attribute with
  the element's link key that resolves to a URL of the mirrored host and for whose file a
  relative path exists is replaced by that relative path alone: the value written is the
  one written for the same URL without fragment, and for a fragment of the page itself
  it is the path from the page's directory to the page's own file. The other attributes
  of the element, before and after it, keep their value.
\<close>

theorem rewriteLinks_drops_fragment:
  assumes "i < length (preorder doc)"
    and "Type (preorder doc ! i) = ElementNode"
    and "rewriteTag (Data (preorder doc ! i)) = Some k"
    and "j < length (Attr (preorder doc ! i))"
    and "\<forall>j' < j. relTo L d base cur k (Attr (preorder doc ! i) ! j') = None"
    and "Key (Attr (preorder doc ! i) ! j) = k"
    and "URL_Parse L base (Val (Attr (preorder doc ! i) ! j)) = Some absURL"
    and "Host absURL = host d"
    and "Rel (Dir cur) (makeLocalPath d absURL) = Some rel"
  shows "Attr (preorder (rewriteLinks L d doc base cur) ! i) ! j
           = (Attr (preorder doc ! i) ! j)\<lparr>Val := rel\<rparr>
       \<and> Rel (Dir cur) (makeLocalPath d (absURL\<lparr>Fragment := []\<rparr>)) = Some rel
       \<and> (Path absURL = Path base \<and> cur = makeLocalPath d base \<longrightarrow> Rel (Dir cur) cur = Some rel)
       \<and> (\<forall>j2 < length (Attr (preorder doc ! i)). j < j2 \<longrightarrow>
             Attr (preorder (rewriteLinks L d doc base cur) ! i) ! j2 = Attr (preorder doc ! i) ! j2)
       \<and> (\<forall>j1 < j.
             Attr (preorder (rewriteLinks L d doc base cur) ! i) ! j1 = Attr (preorder doc ! i) ! j1)"
proof -
  have r: "relTo L d base cur k (Attr (preorder doc ! i) ! j) = Some rel"
    using assms(6-9) by (simp add: relTo_def)
  have v: "rewriteVisit L d base cur (preorder doc ! i)
             = rewriteAttrs L d base cur k (Attr (preorder doc ! i))"
    using assms(2,3) by (simp add: rewriteVisit_def)
  have 1: "Attr (preorder (rewriteLinks L d doc base cur) ! i) ! j
           = (Attr (preorder doc ! i) ! j)\<lparr>Val := rel\<rparr>"
    using rewriteLinks_attr(2)[OF assms(1), of L d base cur] v
      rewriteAttrs_first[OF assms(4) r assms(5)] by simp
  have same: "makeLocalPath d (absURL\<lparr>Fragment := []\<rparr>) = makeLocalPath d absURL"
    by (simp add: makeLocalPath_def)
  have 2: "Rel (Dir cur) (makeLocalPath d (absURL\<lparr>Fragment := []\<rparr>)) = Some rel"
    using assms(9) by (simp only: same)
  have 3: "Path absURL = Path base \<and> cur = makeLocalPath d base \<longrightarrow> Rel (Dir cur) cur = Some rel"
    using assms(9) by (auto simp: makeLocalPath_def)
  have 4: "\<forall>j2 < length (Attr (preorder doc ! i)). j < j2 \<longrightarrow>
             Attr (preorder (rewriteLinks L d doc base cur) ! i) ! j2 = Attr (preorder doc ! i) ! j2"
  proof (intro allI impI)
    fix j2 assume a: "j2 < length (Attr (preorder doc ! i))" "j < j2"
    with r have "\<exists>j' < j2. relTo L d base cur k (Attr (preorder doc ! i) ! j') \<noteq> None" by auto
    with a(1) have "rewriteAttrs L d base cur k (Attr (preorder doc ! i)) ! j2 = Attr (preorder doc ! i) ! j2"
      by (intro rewriteAttrs_other) simp_all
    with rewriteLinks_attr(2)[OF assms(1), of L d base cur] v
    show "Attr (preorder (rewriteLinks L d doc base cur) ! i) ! j2 = Attr (preorder doc ! i) ! j2"
      by simp
  qed
  have 5: "\<forall>j1 < j.
             Attr (preorder (rewriteLinks L d doc base cur) ! i) ! j1 = Attr (preorder doc ! i) ! j1"
  proof (intro allI impI)
    fix j1 assume a: "j1 < j"
    with assms(4) have l: "j1 < length (Attr (preorder doc ! i))" by simp
    from a assms(5) have "relTo L d base cur k (Attr (preorder doc ! i) ! j1) = None" by simp
    with l have "rewriteAttrs L d base cur k (Attr (preorder doc ! i)) ! j1 = Attr (preorder doc ! i) ! j1"
      by (intro rewriteAttrs_other) simp_all
    with rewriteLinks_attr(2)[OF assms(1), of L d base cur] v
    show "Attr (preorder (rewriteLinks L d doc base cur) ! i) ! j1 = Attr (preorder doc ! i) ! j1"
      by simp
  qed
  from 1 2 3 4 5 show ?thesis by blast
qed

theorem rewriteLinks_drops_fragment_witness:
  "preorder exampleDoc ! 7 = Node ElementNode ''a'' [\<lparr>Key = ''href'', Val = ''#top''\<rparr>] []
   \<and> URL_Parse exampleLib exampleBase ''#top'' = Some (exampleBase\<lparr>Fragment := ''top''\<rparr>)
   \<and> makeLocalPath exampleD exampleBase = ''example.com/index.html''
   \<and> Rel (Dir ''example.com/index.html'') ''example.com/index.html'' = Some ''index.html''
   \<and> Attr (preorder (rewriteLinks exampleLib exampleD exampleDoc exampleBase ''example.com/index.html'') ! 7) ! 0
       = \<lparr>Key = ''href'', Val = ''index.html''\<rparr>"
proof -
  have n: "preorder exampleDoc ! 7 = Node ElementNode ''a'' [\<lparr>Key = ''href'', Val = ''#top''\<rparr>] []"
    and l: "7 < length (preorder exampleDoc)"
    by (simp_all add: exampleDoc_def)
  have p: "URL_Parse exampleLib exampleBase ''#top'' = Some (exampleBase\<lparr>Fragment := ''top''\<rparr>)"
    by (simp add: exampleLib_def exampleResolve_def)
  have h: "Host (exampleBase\<lparr>Fragment := ''top''\<rparr>) = host exampleD"
    by (simp add: exampleBase_def exampleD_def)
  have m: "makeLocalPath exampleD (exampleBase\<lparr>Fragment := ''top''\<rparr>) = ''example.com/index.html''"
    and m0: "makeLocalPath exampleD exampleBase = ''example.com/index.html''"
    by (simp_all add: exampleBase_def exampleD_def path_defs)
  have r: "Rel (Dir ''example.com/index.html'') ''example.com/index.html'' = Some ''index.html''"
    by (simp add: path_defs relLoop.simps)
  from rewriteLinks_drops_fragment[of 7 exampleDoc "''href''" 0 exampleLib exampleD exampleBase
      "''example.com/index.html''" "exampleBase\<lparr>Fragment := ''top''\<rparr>" "''index.html''"]
    n l p h m r
  have "Attr (preorder (rewriteLinks exampleLib exampleD exampleDoc exampleBase ''example.com/index.html'') ! 7) ! 0
       = \<lparr>Key = ''href'', Val = ''index.html''\<rparr>"
    by (simp add: rewriteTag_def)
  with n p m0 r show ?thesis by blast
qed

subsection \<open>Rewritten links resolve to the files of their targets\<close>

text \<open>
  Claim C5 says that every link attribute of a document that points into the mirrored
  host, joined after rewriting with the directory of the document's own file, gives the
  local path \<open>makeLocalPath\<close> computes for its target. It is not so for every such
  attribute: the loop of \<open>rewriteLinks\<close> leaves the element at its first rewrite (\<open>break\<close>,
  line 319), so a second \<open>href\<close> of the same element keeps the value it had, and that
  value joined with the directory is not the path of the target's file.
\<close>

theorem second_href_does_not_resolve:
  "makeLocalPath exampleD exampleBase = ''example.com/index.html''
   \<and> sameHost exampleLib exampleD exampleBase ''/y''
   \<and> map_option (makeLocalPath exampleD) (URL_Parse exampleLib exampleBase ''/y'')
       = Some ''example.com/y/index.html''
   \<and> Attr (rewriteLinks exampleLib exampleD twoHrefs exampleBase ''example.com/index.html'')
       = [\<lparr>Key = ''href'', Val = ''x/index.html''\<rparr>, \<lparr>Key = ''href'', Val = ''/y''\<rparr>]
   \<and> Join [Dir ''example.com/index.html'', ''/y''] = ''example.com/y''"
  by (simp add: sameHost_def rewriteLinks_def rewriteVisit_def rewriteTag_def twoHrefs_def
        exampleLib_def exampleResolve_def exampleD_def exampleBase_def path_defs relLoop.simps)

text \<open>
  Claim C5, amended: in an element \<open>a\<close>, \<open>link\<close>, \<open>script\<close> or \<open>img\<close>, let an attribute with
  the element's link key resolve to a URL of the mirrored host, the loop having passed
  over every attribute before it. When \<open>Rel\<close> returns a path from the directory of the
  document's file to the file of the target, that path is written to the attribute,
  the directory joined with the value written is the local path \<open>makeLocalPath\<close>
  computes for the target, and the later attributes of the element keep their value.
  \<open>Rel\<close> does return a path when the directory has no element \<open>..\<close> and is rooted exactly
  when the file of the target is.
\<close>

theorem rewriteLinks_resolves:
  assumes "i < length (preorder doc)"
    and "Type (preorder doc ! i) = ElementNode"
    and "rewriteTag (Data (preorder doc ! i)) = Some k"
    and "j < length (Attr (preorder doc ! i))"
    and "\<forall>j' < j. relTo L d base cur k (Attr (preorder doc ! i) ! j') = None"
    and "Key (Attr (preorder doc ! i) ! j) = k"
    and "URL_Parse L base (Val (Attr (preorder doc ! i) ! j)) = Some absURL"
    and "Host absURL = host d"
  shows "(\<forall>rel. Rel (Dir cur) (makeLocalPath d absURL) = Some rel \<longrightarrow>
            Attr (preorder (rewriteLinks L d doc base cur) ! i) ! j
              = (Attr (preorder doc ! i) ! j)\<lparr>Val := rel\<rparr>
            \<and> Join [Dir cur, Val (Attr (preorder (rewriteLinks L d doc base cur) ! i) ! j)]
                = makeLocalPath d absURL
            \<and> (\<forall>j2 < length (Attr (preorder doc ! i)). j < j2 \<longrightarrow>
                  Attr (preorder (rewriteLinks L d doc base cur) ! i) ! j2
                    = Attr (preorder doc ! i) ! j2))
       \<and> (''..'' \<notin> set (elems (Dir cur))
            \<and> isRooted (makeLocalPath d absURL) = isRooted (Dir cur) \<longrightarrow>
          (\<exists>rel. Rel (Dir cur) (makeLocalPath d absURL) = Some rel))"
proof (intro conjI allI impI)
  fix rel
  assume rel: "Rel (Dir cur) (makeLocalPath d absURL) = Some rel"
  have cd: "Clean (Dir cur) = Dir cur" by (rule Dir_Clean)
  have cm: "Clean (makeLocalPath d absURL) = makeLocalPath d absURL" by (rule makeLocalPath_Clean)
  have r: "relTo L d base cur k (Attr (preorder doc ! i) ! j) = Some rel"
    using assms(6-8) rel by (simp add: relTo_def)
  have v: "rewriteVisit L d base cur (preorder doc ! i)
             = rewriteAttrs L d base cur k (Attr (preorder doc ! i))"
    using assms(2,3) by (simp add: rewriteVisit_def)
  show 1: "Attr (preorder (rewriteLinks L d doc base cur) ! i) ! j
           = (Attr (preorder doc ! i) ! j)\<lparr>Val := rel\<rparr>"
    using rewriteLinks_attr(2)[OF assms(1), of L d base cur] v
      rewriteAttrs_first[OF assms(4) r assms(5)] by simp
  have "Join [Dir cur, rel] = Clean (makeLocalPath d absURL)"
    using rel cd by (rule Rel_Join)
  then show "Join [Dir cur, Val (Attr (preorder (rewriteLinks L d doc base cur) ! i) ! j)]
               = makeLocalPath d absURL"
    by (simp add: 1 cm del: Join.simps)
  fix j2 assume a: "j2 < length (Attr (preorder doc ! i))" "j < j2"
  with r have "\<exists>j' < j2. relTo L d base cur k (Attr (preorder doc ! i) ! j') \<noteq> None" by auto
  with a(1) have "rewriteAttrs L d base cur k (Attr (preorder doc ! i)) ! j2 = Attr (preorder doc ! i) ! j2"
    by (intro rewriteAttrs_other) simp_all
  with rewriteLinks_attr(2)[OF assms(1), of L d base cur] v
  show "Attr (preorder (rewriteLinks L d doc base cur) ! i) ! j2 = Attr (preorder doc ! i) ! j2"
    by simp
next
  assume a: "''..'' \<notin> set (elems (Dir cur))
             \<and> isRooted (makeLocalPath d absURL) = isRooted (Dir cur)"
  have cd: "Clean (Dir cur) = Dir cur" by (rule Dir_Clean)
  have cm: "Clean (makeLocalPath d absURL) = makeLocalPath d absURL" by (rule makeLocalPath_Clean)
  from a have "isRooted (Clean (makeLocalPath d absURL)) = isRooted (Dir cur)"
    by (simp only: cm)
  with cd a show "\<exists>rel. Rel (Dir cur) (makeLocalPath d absURL) = Some rel"
    by (intro Rel_total) simp_all
qed

theorem rewriteLinks_resolves_witness:
  "preorder exampleDoc ! 5
     = Node ElementNode ''img'' [\<lparr>Key = ''alt'', Val = ''logo''\<rparr>, \<lparr>Key = ''src'', Val = ''/logo.png''\<rparr>] []
   \<and> map_option (makeLocalPath exampleD) (URL_Parse exampleLib exampleBase ''/logo.png'')
       = Some ''example.com/logo.png''
   \<and> Dir ''example.com/index.html'' = ''example.com''
   \<and> Rel ''example.com'' ''example.com/logo.png'' = Some ''logo.png''
   \<and> Attr (preorder (rewriteLinks exampleLib exampleD exampleDoc exampleBase ''example.com/index.html'') ! 5) ! 1
       = \<lparr>Key = ''src'', Val = ''logo.png''\<rparr>
   \<and> Join [''example.com'', ''logo.png''] = ''example.com/logo.png''"
proof -
  define target where "target = exampleBase\<lparr>Path := ''/logo.png''\<rparr>"
  have n: "preorder exampleDoc ! 5
     = Node ElementNode ''img'' [\<lparr>Key = ''alt'', Val = ''logo''\<rparr>, \<lparr>Key = ''src'', Val = ''/logo.png''\<rparr>] []"
    and l: "5 < length (preorder exampleDoc)"
    by (simp_all add: exampleDoc_def)
  have p: "URL_Parse exampleLib exampleBase ''/logo.png'' = Some target"
    by (simp add: exampleLib_def exampleResolve_def exampleBase_def target_def)
  have h: "Host target = host exampleD"
    by (simp add: exampleBase_def exampleD_def target_def)
  have m: "makeLocalPath exampleD target = ''example.com/logo.png''"
    by (simp add: exampleBase_def exampleD_def target_def path_defs)
  have dir: "Dir ''example.com/index.html'' = ''example.com''"
    by (simp add: path_defs)
  have r: "Rel ''example.com'' ''example.com/logo.png'' = Some ''logo.png''"
    by (simp add: path_defs relLoop.simps)
  have j: "Join [''example.com'', ''logo.png''] = ''example.com/logo.png''"
    by (simp add: path_defs)
  from rewriteLinks_resolves[of 5 exampleDoc "''src''" 1 exampleLib exampleD exampleBase
      "''example.com/index.html''" target]
    n l p h m dir r
  have "Attr (preorder (rewriteLinks exampleLib exampleD exampleDoc exampleBase ''example.com/index.html'') ! 5) ! 1
       = \<lparr>Key = ''src'', Val = ''logo.png''\<rparr>"
    by (simp add: rewriteTag_def relTo_def)
  with n p m dir r j show ?thesis by simp
qed

end
